theory Spec2Isabelle
  imports Complex_Main
begin

section \<open>Python library behaviour used by the program\<close>

text \<open>
  Exceptions that the modelled code can raise are values of \<open>py_error\<close>; a function that
  may raise returns \<open>py_error + 'a\<close> with \<open>Inl\<close> for the exception.
\<close>

datatype py_error = ValueError | IndexError

text \<open>
  \<open>collections.deque(maxlen=10)\<close>: \<open>append\<close> adds on the right and, when the deque
  was already full, drops the leftmost entry.
\<close>

definition maxlen :: nat where
  "maxlen = 10"

definition deque_append :: "int list \<Rightarrow> int \<Rightarrow> int list" where
  "deque_append h x = (if length h \<ge> maxlen then tl h @ [x] else h @ [x])"

text \<open>
  \<open>collections.Counter(iterable)\<close>: a dictionary from element to count whose keys are kept
  in order of first occurrence. \<open>most_common(1)\<close> returns the first entry, in that order,
  whose count is maximal (the list is empty for an empty counter, so that indexing it
  with \<open>[0]\<close> raises \<open>IndexError\<close>).
\<close>

fun counter_add :: "int \<Rightarrow> (int \<times> nat) list \<Rightarrow> (int \<times> nat) list" where
  "counter_add x [] = [(x, 1)]"
| "counter_add x ((k, c) # kcs) =
     (if k = x then (k, Suc c) # kcs else (k, c) # counter_add x kcs)"

definition Counter :: "int list \<Rightarrow> (int \<times> nat) list" where
  "Counter xs = foldl (\<lambda>acc x. counter_add x acc) [] xs"

fun first_max :: "int \<times> nat \<Rightarrow> (int \<times> nat) list \<Rightarrow> int \<times> nat" where
  "first_max best [] = best"
| "first_max best (kc # kcs) = first_max (if snd kc > snd best then kc else best) kcs"

definition most_common1 :: "(int \<times> nat) list \<Rightarrow> (int \<times> nat) option" where
  "most_common1 kcs = (case kcs of [] \<Rightarrow> None | kc # rest \<Rightarrow> Some (first_max kc rest))"

text \<open>\<open>int(x)\<close> on a finite float truncates towards zero.\<close>

definition py_int_of_float :: "real \<Rightarrow> int" where
  "py_int_of_float x = (if x \<ge> 0 then \<lfloor>x\<rfloor> else \<lceil>x\<rceil>)"

text \<open>\<open>round(n)\<close> on a Python \<open>int\<close> returns that integer.\<close>

definition py_round_int :: "int \<Rightarrow> int" where
  "py_round_int n = n"

section \<open>AudioProcessor (audio\_processor.py)\<close>

text \<open>
  Floating-point numbers are modelled by real numbers. The pitch detector and the
  energy computation are external: one audio block enters the model as the pair of the
  detected frequency \<open>fr\<close> and the amplitude \<open>am\<close> computed from it.
\<close>

record processor =
  note_history :: "int list"
  required_stability :: int
  current_note :: "int option"
  current_stable_note :: "int option"

record result =
  is_valid :: bool
  midi_note :: "int option"
  is_new_note :: bool
  freq :: real
  amplitude :: real

text \<open>\<open>AudioProcessor.__init__\<close> with its default \<open>stability_threshold = 5\<close>.\<close>

definition init_processor :: "int \<Rightarrow> processor" where
  "init_processor stability_threshold =
     \<lparr>note_history = [], required_stability = stability_threshold,
      current_note = None, current_stable_note = None\<rparr>"

text \<open>
  \<open>freq_to_midi\<close>: \<open>None\<close> for frequency 0; otherwise \<open>int(69 + 12 * np.log2(freq / 440.0))\<close>.
  For a negative frequency \<open>np.log2\<close> yields NaN and \<open>int\<close> raises \<open>ValueError\<close>.
\<close>

definition freq_to_midi :: "real \<Rightarrow> py_error + int option" where
  "freq_to_midi fr =
     (if fr = 0 then Inr None
      else if fr < 0 then Inl ValueError
      else Inr (Some (py_int_of_float (69 + 12 * log 2 (fr / 440)))))"

definition process_audio_buffer ::
  "real \<Rightarrow> real \<Rightarrow> processor \<Rightarrow> py_error + (result \<times> processor)" where
  "process_audio_buffer fr am s =
     (let res = \<lparr>is_valid = False, midi_note = None, is_new_note = False,
                 freq = fr, amplitude = am\<rparr>
      in if am > 0.001 \<and> fr > 20 then
           (case freq_to_midi fr of
              Inl e \<Rightarrow> Inl e
            | Inr None \<Rightarrow> Inr (res, s)
            | Inr (Some note0) \<Rightarrow>
                let note = py_round_int note0;
                    s1 = s\<lparr>note_history := deque_append (note_history s) note\<rparr>
                in if int (length (note_history s1)) \<ge> required_stability s1 then
                     (case most_common1 (Counter (note_history s1)) of
                        None \<Rightarrow> Inl IndexError
                      | Some (most_common_note, count) \<Rightarrow>
                          if int count \<ge> required_stability s1 then
                            let res1 = res\<lparr>is_valid := True,
                                           midi_note := Some most_common_note\<rparr>
                            in if Some most_common_note \<noteq> current_stable_note s1 then
                                 Inr (res1\<lparr>is_new_note := True\<rparr>,
                                      s1\<lparr>current_stable_note := Some most_common_note\<rparr>)
                               else Inr (res1, s1)
                          else Inr (res, s1))
                   else Inr (res, s1))
         else Inr (res, s\<lparr>note_history := [], current_stable_note := None\<rparr>))"

definition set_stability :: "int \<Rightarrow> processor \<Rightarrow> processor" where
  "set_stability v s = s\<lparr>required_stability := v\<rparr>"

definition reset :: "processor \<Rightarrow> processor" where
  "reset s = s\<lparr>note_history := [], current_note := None, current_stable_note := None\<rparr>"

section \<open>KeyboardEmulator: key presses (keyboard\_emulator.py)\<close>

text \<open>
  The \<open>keyboard\<close> library is external. Each operation of the emulator returns the calls
  it makes to the library, in order; \<open>held_after\<close> gives the set of key names the
  library holds down after such calls.
\<close>

datatype kb_call = Press string | Release string

fun held_after :: "kb_call list \<Rightarrow> string set \<Rightarrow> string set" where
  "held_after [] held = held"
| "held_after (Press k # cs) held = held_after cs (insert k held)"
| "held_after (Release k # cs) held = held_after cs (held - {k})"

record keyboard_emulator =
  available :: bool
  current_key :: "string option"
  note_to_key_map :: "int \<rightharpoonup> string"

definition init_keyboard_emulator :: "bool \<Rightarrow> keyboard_emulator" where
  "init_keyboard_emulator import_ok =
     \<lparr>available = import_ok, current_key = None, note_to_key_map = Map.empty\<rparr>"

definition press_key ::
  "int \<Rightarrow> keyboard_emulator \<Rightarrow> bool \<times> kb_call list \<times> keyboard_emulator" where
  "press_key note e =
     (if \<not> available e then (False, [], e)
      else case note_to_key_map e note of
        None \<Rightarrow> (False, [], e)
      | Some key \<Rightarrow>
          let rel = (case current_key e of
                       None \<Rightarrow> []
                     | Some cur \<Rightarrow> if cur \<noteq> key then [Release cur] else [])
          in if Some key \<noteq> current_key e
             then (True, rel @ [Press key], e\<lparr>current_key := Some key\<rparr>)
             else (True, rel, e))"

definition release_key :: "keyboard_emulator \<Rightarrow> kb_call list \<times> keyboard_emulator" where
  "release_key e =
     (if \<not> available e then ([], e)
      else case current_key e of
        None \<Rightarrow> ([], e)
      | Some cur \<Rightarrow> ([Release cur], e\<lparr>current_key := None\<rparr>))"

section \<open>The processing loops (midi\_mode.py, keyboard\_mode.py)\<close>

text \<open>
  One iteration of \<open>process_audio\<close> reads a block, runs \<open>process_audio_buffer\<close> and acts on
  the result. The iteration returns what it sends and emits, in order: MIDI messages
  handed to the output port, calls to the keyboard library, and the Qt signals
  \<open>status_signal\<close>, \<open>note_detected_signal\<close> and \<open>note_off_signal\<close>. The MIDI port and
  the signals are external and taken to accept whatever they are given. A block is the
  pair (frequency, amplitude).
\<close>

datatype midi_message = NoteOffMsg int nat | NoteOnMsg int nat nat

datatype status = StatusNote int | StatusNoteKey int "string option" | StatusNotMapped int
  | StatusError py_error

datatype action = Send midi_message | Keyboard kb_call | StatusSignal status
  | NoteDetectedSignal int | NoteOffSignal

record midi_window =
  midi_audio_processor :: processor
  midi_current_note :: "int option"
  midi_running :: bool

definition midi_start_processing :: "midi_window \<Rightarrow> midi_window" where
  "midi_start_processing w =
     w\<lparr>midi_audio_processor := reset (midi_audio_processor w),
       midi_current_note := None, midi_running := True\<rparr>"

definition midi_iteration ::
  "nat \<Rightarrow> real \<times> real \<Rightarrow> midi_window \<Rightarrow> action list \<times> midi_window" where
  "midi_iteration midi_channel blk w =
     (case process_audio_buffer (fst blk) (snd blk) (midi_audio_processor w) of
        Inl e \<Rightarrow> ([StatusSignal (StatusError e)], w\<lparr>midi_running := False\<rparr>)
      | Inr (res, p) \<Rightarrow>
          let w1 = w\<lparr>midi_audio_processor := p\<rparr>
          in if is_valid res \<and> midi_note res \<noteq> None then
               (case midi_note res of
                  None \<Rightarrow> ([], w1)
                | Some n \<Rightarrow>
                    if is_new_note res then
                      ((case midi_current_note w1 of
                          None \<Rightarrow> []
                        | Some c \<Rightarrow> [Send (NoteOffMsg c midi_channel)])
                       @ [Send (NoteOnMsg n 64 midi_channel), StatusSignal (StatusNote n),
                          NoteDetectedSignal n],
                       w1\<lparr>midi_current_note := Some n\<rparr>)
                    else ([], w1))
             else if \<not> is_valid res \<and> midi_current_note w1 \<noteq> None then
               (case midi_current_note w1 of
                  None \<Rightarrow> ([], w1)
                | Some c \<Rightarrow>
                    ([Send (NoteOffMsg c midi_channel), NoteOffSignal],
                     w1\<lparr>midi_current_note := None\<rparr>))
             else ([], w1))"

text \<open>
  The \<open>while self.running\<close> loop over the blocks the stream delivers: the list of
  per-block outputs and the final state.
\<close>

fun midi_process_audio ::
  "nat \<Rightarrow> (real \<times> real) list \<Rightarrow> midi_window \<Rightarrow> action list list \<times> midi_window" where
  "midi_process_audio midi_channel [] w = ([], w)"
| "midi_process_audio midi_channel (blk # blks) w =
     (if midi_running w then
        (let (acts, w1) = midi_iteration midi_channel blk w;
             (rest, w2) = midi_process_audio midi_channel blks w1
         in (acts # rest, w2))
      else ([], w))"

record keyboard_window =
  kb_audio_processor :: processor
  kb_keyboard_emulator :: keyboard_emulator
  kb_current_note :: "int option"
  kb_running :: bool

definition kb_iteration :: "real \<times> real \<Rightarrow> keyboard_window \<Rightarrow> action list \<times> keyboard_window" where
  "kb_iteration blk w =
     (case process_audio_buffer (fst blk) (snd blk) (kb_audio_processor w) of
        Inl e \<Rightarrow> ([StatusSignal (StatusError e)], w\<lparr>kb_running := False\<rparr>)
      | Inr (res, p) \<Rightarrow>
          let w1 = w\<lparr>kb_audio_processor := p\<rparr>
          in if is_valid res \<and> midi_note res \<noteq> None then
               (case midi_note res of
                  None \<Rightarrow> ([], w1)
                | Some n \<Rightarrow>
                    if is_new_note res then
                      (case press_key n (kb_keyboard_emulator w1) of
                         (key_pressed, calls, e1) \<Rightarrow>
                           (map Keyboard calls
                            @ [StatusSignal (if key_pressed then StatusNoteKey n (current_key e1)
                                             else StatusNotMapped n),
                               NoteDetectedSignal n],
                            w1\<lparr>kb_keyboard_emulator := e1, kb_current_note := Some n\<rparr>))
                    else ([], w1))
             else if \<not> is_valid res \<and> kb_current_note w1 \<noteq> None then
               (case release_key (kb_keyboard_emulator w1) of
                  (calls, e1) \<Rightarrow>
                    (map Keyboard calls @ [NoteOffSignal],
                     w1\<lparr>kb_keyboard_emulator := e1, kb_current_note := None\<rparr>))
             else ([], w1))"

fun kb_process_audio ::
  "(real \<times> real) list \<Rightarrow> keyboard_window \<Rightarrow> action list list \<times> keyboard_window" where
  "kb_process_audio [] w = ([], w)"
| "kb_process_audio (blk # blks) w =
     (if kb_running w then
        (let (acts, w1) = kb_iteration blk w;
             (rest, w2) = kb_process_audio blks w1
         in (acts # rest, w2))
      else ([], w))"

text \<open>
  The events of the specification: \<open>note_detected_signal\<close> is "note changed", and
  \<open>note_off_signal\<close> is "note off".
\<close>

datatype event = NoteChanged int | NoteOff

fun events_of :: "action list \<Rightarrow> event list" where
  "events_of [] = []"
| "events_of (NoteDetectedSignal n # as) = NoteChanged n # events_of as"
| "events_of (NoteOffSignal # as) = NoteOff # events_of as"
| "events_of (_ # as) = events_of as"

text \<open>The silence gate of \<open>process_audio_buffer\<close>, on a block (frequency, amplitude).\<close>

definition passes_gate :: "real \<times> real \<Rightarrow> bool" where
  "passes_gate blk \<longleftrightarrow> snd blk > 0.001 \<and> fst blk > 20"

section \<open>The stability control (midi\_mode.py, keyboard\_mode.py)\<close>

text \<open>
  Both windows build the control as a \<open>QSlider\<close> with \<open>setMinimum(1)\<close> and
  \<open>setMaximum(20)\<close>; a slider keeps its value inside that range, and every change of
  the value calls \<open>update_stability\<close>, which hands it to \<open>set_stability\<close>.
\<close>

definition slider_minimum :: int where
  "slider_minimum = 1"

definition slider_maximum :: int where
  "slider_maximum = 20"

definition slider_value :: "int \<Rightarrow> int" where
  "slider_value v = max slider_minimum (min slider_maximum v)"

definition update_stability :: "int \<Rightarrow> midi_window \<Rightarrow> midi_window" where
  "update_stability v w = w\<lparr>midi_audio_processor := set_stability v (midi_audio_processor w)\<rparr>"

section \<open>KeyboardEmulator: the mapping file (keyboard\_emulator.py)\<close>

text \<open>
  Strings are lists of 8-bit characters, so the model covers ASCII text. \<open>str.strip()\<close>
  removes leading and trailing whitespace.
\<close>

definition py_isspace :: "char \<Rightarrow> bool" where
  "py_isspace c \<longleftrightarrow>
     c \<in> {CHR 0x09, CHR 0x0A, CHR 0x0B, CHR 0x0C, CHR 0x0D,
          CHR 0x1C, CHR 0x1D, CHR 0x1E, CHR 0x1F, CHR '' ''}"

definition py_strip :: "string \<Rightarrow> string" where
  "py_strip s = rev (dropWhile py_isspace (rev (dropWhile py_isspace s)))"

text \<open>
  \<open>int(s)\<close> on a string: surrounding whitespace is ignored, then an optional sign, then
  decimal digits, where single underscores may stand between digits. Anything else
  raises \<open>ValueError\<close>, as do more than 4300 digits (the interpreter's default limit
  for the conversion); \<open>None\<close> stands for that exception, the only one \<open>int\<close> raises
  on a string. On an ASCII string \<open>int\<close> ignores fewer characters than \<open>strip\<close>
  removes: space, tab, line feed, vertical tab, form feed and carriage return, and not
  the separators 0x1C to 0x1F.
\<close>

definition py_int_isspace :: "char \<Rightarrow> bool" where
  "py_int_isspace c \<longleftrightarrow>
     c \<in> {CHR 0x09, CHR 0x0A, CHR 0x0B, CHR 0x0C, CHR 0x0D, CHR '' ''}"

definition py_int_strip :: "string \<Rightarrow> string" where
  "py_int_strip s = rev (dropWhile py_int_isspace (rev (dropWhile py_int_isspace s)))"

definition digit_val :: "char \<Rightarrow> nat option" where
  "digit_val c = map_of (zip ''0123456789'' [0, 1, 2, 3, 4, 5, 6, 7, 8, 9]) c"

fun digits_value :: "nat \<Rightarrow> string \<Rightarrow> nat option" where
  "digits_value acc [] = Some acc"
| "digits_value acc [c] =
     (case digit_val c of None \<Rightarrow> None | Some v \<Rightarrow> Some (10 * acc + v))"
| "digits_value acc (c # d # ds) =
     (if c = CHR ''_'' then
        (case digit_val d of None \<Rightarrow> None | Some v \<Rightarrow> digits_value (10 * acc + v) ds)
      else
        (case digit_val c of None \<Rightarrow> None | Some v \<Rightarrow> digits_value (10 * acc + v) (d # ds)))"

definition max_str_digits :: nat where
  "max_str_digits = 4300"

definition py_int :: "string \<Rightarrow> int option" where
  "py_int s =
     (let t = py_int_strip s;
          neg = (case t of [] \<Rightarrow> False | c # cs \<Rightarrow> c = CHR ''-'');
          body = (case t of [] \<Rightarrow> []
                  | c # cs \<Rightarrow> if c = CHR ''-'' \<or> c = CHR ''+'' then cs else t)
      in case body of
           [] \<Rightarrow> None
         | d # ds \<Rightarrow>
             (case digit_val d of
                None \<Rightarrow> None
              | Some v \<Rightarrow>
                  if length (filter (\<lambda>c. digit_val c \<noteq> None) body) > max_str_digits then None
                  else (case digits_value v ds of
                          None \<Rightarrow> None
                        | Some n \<Rightarrow> Some (if neg then - int n else int n))))"

text \<open>
  The number that a string of decimal digits denotes, read off the character codes
  (the code of \<open>0\<close> is 48).
\<close>

definition decimal_value :: "string \<Rightarrow> nat" where
  "decimal_value ds = foldl (\<lambda>a c. 10 * a + (of_char c - 48)) 0 ds"

text \<open>The table \<open>notes\<close> of \<open>note_name_to_midi\<close> (\<open>notes\<close> is a keyword here).\<close>

definition notes_table :: "(string \<times> int) list" where
  "notes_table = [(''C'', 0), (''C#'', 1), (''Db'', 1), (''D'', 2), (''D#'', 3), (''Eb'', 3),
                  (''E'', 4), (''F'', 5), (''F#'', 6), (''Gb'', 6), (''G'', 7), (''G#'', 8),
                  (''Ab'', 8), (''A'', 9), (''A#'', 10), (''Bb'', 10), (''B'', 11)]"

definition note_name_to_midi :: "string \<Rightarrow> int option" where
  "note_name_to_midi note_name =
     (if length note_name < 2 then None
      else
        let sharp_flat = (length note_name \<ge> 3
                          \<and> (note_name ! 1 = CHR ''#'' \<or> note_name ! 1 = CHR ''b''));
            note = (if sharp_flat then take 2 note_name else take 1 note_name);
            octave_str = (if sharp_flat then drop 2 note_name else drop 1 note_name)
        in case py_int octave_str of
             None \<Rightarrow> None
           | Some octave \<Rightarrow>
               (case map_of notes_table note of
                  Some pc \<Rightarrow> Some (pc + (octave + 1) * 12)
                | None \<Rightarrow> None))"

text \<open>
  What reading the mapping file gives: \<open>ReadAll rows\<close> when the file is opened and
  \<open>csv.reader\<close> yields all its rows; \<open>ReadFailed rows\<close> when an exception (the file
  cannot be opened, a decoding or a reader error) ends the reading after these rows,
  none if the file cannot be opened. \<open>load_mapping\<close> catches the exception and
  returns \<open>False\<close>; the rows read before it stay in the mapping.
\<close>

datatype config_read = ReadAll "string list list" | ReadFailed "string list list"

definition load_row :: "string list \<Rightarrow> (int \<rightharpoonup> string) \<Rightarrow> (int \<rightharpoonup> string)" where
  "load_row row m =
     (if length row \<ge> 2 then
        (let note_name = py_strip (row ! 0);
             key = py_strip (row ! 1)
         in case note_name_to_midi note_name of
              None \<Rightarrow> m
            | Some n \<Rightarrow> m(n \<mapsto> key))
      else m)"

definition load_mapping ::
  "config_read \<Rightarrow> keyboard_emulator \<Rightarrow> bool \<times> keyboard_emulator" where
  "load_mapping config_file e =
     (case config_file of
        ReadAll rows \<Rightarrow>
          (True, e\<lparr>note_to_key_map := foldl (\<lambda>m row. load_row row m) Map.empty rows\<rparr>)
      | ReadFailed rows \<Rightarrow>
          (False, e\<lparr>note_to_key_map := foldl (\<lambda>m row. load_row row m) Map.empty rows\<rparr>))"

text \<open>
  The row \<open>csv.reader\<close> yields for a line that holds no quote character: the fields
  between the commas, and no field at all for an empty line.
\<close>

fun split_commas :: "string \<Rightarrow> string \<Rightarrow> string list" where
  "split_commas field [] = [rev field]"
| "split_commas field (c # cs) =
     (if c = CHR '','' then rev field # split_commas [] cs else split_commas (c # field) cs)"

definition csv_row :: "string \<Rightarrow> string list" where
  "csv_row line = (if line = [] then [] else split_commas [] line)"

section \<open>Sessions, observations and traces\<close>

text \<open>
  A window as its constructor leaves it (the processor with the default threshold 5),
  and \<open>start_processing\<close>, which resets the processor, clears the current note and
  sets \<open>running\<close>.
\<close>

definition midi_window_init :: midi_window where
  "midi_window_init =
     \<lparr>midi_audio_processor = init_processor 5, midi_current_note = None,
      midi_running = False\<rparr>"

definition kb_window_init :: "keyboard_emulator \<Rightarrow> keyboard_window" where
  "kb_window_init e =
     \<lparr>kb_audio_processor = init_processor 5, kb_keyboard_emulator = e,
      kb_current_note = None, kb_running = False\<rparr>"

definition kb_start_processing :: "keyboard_window \<Rightarrow> keyboard_window" where
  "kb_start_processing w =
     (if \<not> available (kb_keyboard_emulator w) then w
      else w\<lparr>kb_audio_processor := reset (kb_audio_processor w),
             kb_current_note := None, kb_running := True\<rparr>)"

text \<open>
  A block is a Note(n) observation when it passes the silence gate and
  \<open>freq_to_midi\<close> gives \<open>n\<close> for its frequency; it is a Silence observation when it does
  not pass the gate.
\<close>

definition block_note :: "real \<times> real \<Rightarrow> int \<Rightarrow> bool" where
  "block_note blk n \<longleftrightarrow> passes_gate blk \<and> freq_to_midi (fst blk) = Inr (Some n)"

text \<open>
  The loop of \<open>midi_process_audio\<close> again, recording for each block the state in which
  the block was processed together with what the block produced.
\<close>

fun midi_trace ::
  "nat \<Rightarrow> (real \<times> real) list \<Rightarrow> midi_window \<Rightarrow> (midi_window \<times> action list) list" where
  "midi_trace midi_channel [] w = []"
| "midi_trace midi_channel (blk # blks) w =
     (if midi_running w then
        (w, fst (midi_iteration midi_channel blk w))
          # midi_trace midi_channel blks (snd (midi_iteration midi_channel blk w))
      else [])"

text \<open>Successive calls of \<open>process_audio_buffer\<close>, one per block, as the loops make them.\<close>

fun process_blocks ::
  "(real \<times> real) list \<Rightarrow> processor \<Rightarrow> py_error + (result list \<times> processor)" where
  "process_blocks [] s = Inr ([], s)"
| "process_blocks (blk # blks) s =
     (case process_audio_buffer (fst blk) (snd blk) s of
        Inl e \<Rightarrow> Inl e
      | Inr (res, s1) \<Rightarrow>
          (case process_blocks blks s1 of
             Inl e \<Rightarrow> Inl e
           | Inr (ress, s2) \<Rightarrow> Inr (res # ress, s2)))"

text \<open>
  \<open>below_agreement r h ns\<close>: while the notes \<open>ns\<close> are appended one by one to the
  window \<open>h\<close>, no note's count inside the window ever reaches \<open>r\<close>.
\<close>

fun below_agreement :: "int \<Rightarrow> int list \<Rightarrow> int list \<Rightarrow> bool" where
  "below_agreement r h [] = True"
| "below_agreement r h (n # ns) =
     ((\<forall>m \<in> set (deque_append h n). int (count_list (deque_append h n) m) < r)
      \<and> below_agreement r (deque_append h n) ns)"

text \<open>
  A sequence of \<open>press_key\<close> and \<open>release_key\<close> calls on the emulator: the calls made to
  the keyboard library, in order, and the emulator afterwards.
\<close>

datatype kb_op = PressKey int | ReleaseKey

fun kb_ops :: "kb_op list \<Rightarrow> keyboard_emulator \<Rightarrow> kb_call list \<times> keyboard_emulator" where
  "kb_ops [] e = ([], e)"
| "kb_ops (PressKey n # ops) e =
     (case press_key n e of
        (ok, calls, e1) \<Rightarrow> (case kb_ops ops e1 of (rest, e2) \<Rightarrow> (calls @ rest, e2)))"
| "kb_ops (ReleaseKey # ops) e =
     (case release_key e of
        (calls, e1) \<Rightarrow> (case kb_ops ops e1 of (rest, e2) \<Rightarrow> (calls @ rest, e2)))"

text \<open>
  The state of the loop after \<open>j\<close> consecutive Note(n) observations from a reset state.
\<close>

definition after_same :: "int \<Rightarrow> int \<Rightarrow> nat \<Rightarrow> midi_window \<Rightarrow> bool" where
  "after_same r n j w \<longleftrightarrow>
     required_stability (midi_audio_processor w) = r
     \<and> note_history (midi_audio_processor w) = replicate (min j maxlen) n
     \<and> current_stable_note (midi_audio_processor w) = (if r \<le> int j then Some n else None)
     \<and> midi_current_note w = (if r \<le> int j then Some n else None)
     \<and> midi_running w"

text \<open>
  Concrete sessions used to evaluate the loops: a MIDI session as \<open>start_processing\<close>
  leaves it, eleven sounding blocks (five at 440 Hz, four at 880 Hz, two at 220 Hz), six
  blocks alternating between 880 Hz and 220 Hz, and the session after five blocks at
  440 Hz, in which the note 69 is on.
\<close>

definition default_session :: midi_window where
  "default_session = midi_start_processing midi_window_init"

definition drift_blocks :: "(real \<times> real) list" where
  "drift_blocks =
     replicate 5 (440, 1 / 10) @ replicate 4 (880, 1 / 10) @ replicate 2 (220, 1 / 10)"

definition alternating_blocks :: "(real \<times> real) list" where
  "alternating_blocks = concat (replicate 3 [(880, 1 / 10), (220, 1 / 10)])"

definition note_on_session :: midi_window where
  "note_on_session = snd (midi_process_audio 0 (replicate 5 (440, 1 / 10)) default_session)"

text \<open>The windows that arise while the notes \<open>ns\<close> are appended one by one to \<open>h\<close>.\<close>

fun windows :: "int list \<Rightarrow> int list \<Rightarrow> int list list" where
  "windows h [] = []"
| "windows h (n # ns) = deque_append h n # windows (deque_append h n) ns"

text \<open>
  A keyboard session whose mapping file holds the one row \<open>A4,a\<close>, and the processor
  as the eleven blocks of \<open>drift_blocks\<close> leave it.
\<close>

definition kb_default_session :: keyboard_window where
  "kb_default_session =
     kb_start_processing (kb_window_init
       (snd (load_mapping (ReadAll [[''A4'', ''a'']]) (init_keyboard_emulator True))))"

definition drift_processor :: processor where
  "drift_processor =
     \<lparr>note_history = [69, 69, 69, 69, 81, 81, 81, 81, 57, 57], required_stability = 5,
      current_note = None, current_stable_note = Some 69\<rparr>"

text \<open>
  At most one key name is held; the link between the emulator's \<open>current_key\<close> and
  the keys the library holds; and an emulator loaded with the rows \<open>A4,a\<close> and \<open>B4,b\<close>.
\<close>

definition at_most_one :: "string set \<Rightarrow> bool" where
  "at_most_one held \<longleftrightarrow> held = {} \<or> (\<exists>key. held = {key})"

definition two_key_emulator :: keyboard_emulator where
  "two_key_emulator =
     snd (load_mapping (ReadAll [[''A4'', ''a''], [''B4'', ''b'']])
       (init_keyboard_emulator True))"

definition kb_inv :: "keyboard_emulator \<Rightarrow> string set \<Rightarrow> bool" where
  "kb_inv e held \<longleftrightarrow> held = (case current_key e of None \<Rightarrow> {} | Some k \<Rightarrow> {k})"

section \<open>Lemmas on the counter and the window\<close>

lemma counter_add_map_of:
  "map_of (counter_add x kcs) k =
     (if k = x then Some (case map_of kcs x of None \<Rightarrow> 1 | Some c \<Rightarrow> Suc c) else map_of kcs k)"
  by (induction x kcs rule: counter_add.induct) auto

lemma counter_add_keys: "fst ` set (counter_add x kcs) = insert x (fst ` set kcs)"
  by (induction x kcs rule: counter_add.induct) auto

lemma counter_add_distinct:
  "distinct (map fst kcs) \<Longrightarrow> distinct (map fst (counter_add x kcs))"
proof (induction x kcs rule: counter_add.induct)
  case (1 x)
  then show ?case by simp
next
  case (2 x k c kcs)
  then show ?case
    using counter_add_keys [of x kcs] by (auto simp: image_iff)
qed

lemma Counter_snoc: "Counter (xs @ [x]) = counter_add x (Counter xs)"
  by (simp add: Counter_def)

lemma Counter_distinct: "distinct (map fst (Counter xs))"
  by (induction xs rule: rev_induct)
    (simp_all add: Counter_snoc counter_add_distinct, simp add: Counter_def)

lemma Counter_map_of:
  "map_of (Counter xs) k = (if k \<in> set xs then Some (count_list xs k) else None)"
proof (induction xs rule: rev_induct)
  case Nil
  then show ?case by (simp add: Counter_def)
next
  case (snoc x xs)
  then show ?case
    by (auto simp: Counter_snoc counter_add_map_of count_list_0_iff)
qed

lemma Counter_empty_iff: "Counter xs = [] \<longleftrightarrow> xs = []"
proof
  assume e: "Counter xs = []"
  show "xs = []"
  proof (cases xs)
    case Nil
    then show ?thesis .
  next
    case (Cons x ys)
    then have "map_of (Counter xs) x \<noteq> None"
      by (simp add: Counter_map_of)
    with e show ?thesis by simp
  qed
next
  assume "xs = []"
  then show "Counter xs = []" by (simp add: Counter_def)
qed

lemma first_max_mem: "first_max b kcs \<in> set (b # kcs)"
  by (induction b kcs rule: first_max.induct) auto

lemma first_max_ge_best: "snd b \<le> snd (first_max b kcs)"
proof (induction b kcs rule: first_max.induct)
  case (1 best)
  then show ?case by simp
next
  case (2 best kc kcs)
  then show ?case by (auto split: if_splits intro: le_trans less_imp_le)
qed

lemma first_max_ge: "kc \<in> set kcs \<Longrightarrow> snd kc \<le> snd (first_max b kcs)"
proof (induction kcs arbitrary: b)
  case Nil
  then show ?case by simp
next
  case (Cons a kcs)
  show ?case
  proof (cases "kc = a")
    case True
    have "snd a \<le> snd (if snd a > snd b then a else b)" by simp
    also have "\<dots> \<le> snd (first_max (if snd a > snd b then a else b) kcs)"
      by (rule first_max_ge_best)
    finally show ?thesis using True by simp
  next
    case False
    with Cons.prems have "kc \<in> set kcs" by simp
    then show ?thesis using Cons.IH by simp
  qed
qed

text \<open>
  On a non-empty window \<open>most_common(1)[0]\<close> is a note of the window together with
  its count, and no note of the window has a larger count.
\<close>

lemma most_common1_Counter:
  assumes "xs \<noteq> []"
  shows "\<exists>m c. most_common1 (Counter xs) = Some (m, c) \<and> m \<in> set xs
           \<and> c = count_list xs m \<and> (\<forall>k. count_list xs k \<le> c)"
proof -
  from assms obtain kc rest where C: "Counter xs = kc # rest"
    by (cases "Counter xs") (simp_all add: Counter_empty_iff)
  define r where "r = first_max kc rest"
  have mc: "most_common1 (Counter xs) = Some r"
    by (simp add: most_common1_def C r_def)
  have mem: "r \<in> set (Counter xs)"
    using first_max_mem [of kc rest] by (simp add: C r_def)
  then have mo: "map_of (Counter xs) (fst r) = Some (snd r)"
    using Counter_distinct [of xs] by simp
  then have in_xs: "fst r \<in> set xs" and cnt: "snd r = count_list xs (fst r)"
    by (auto simp: Counter_map_of split: if_splits)
  have ge: "count_list xs k \<le> snd r" for k
  proof (cases "k \<in> set xs")
    case True
    then have "map_of (Counter xs) k = Some (count_list xs k)"
      by (simp add: Counter_map_of)
    then have "(k, count_list xs k) \<in> set (kc # rest)"
      using C by (metis map_of_SomeD)
    then have "snd (k, count_list xs k) \<le> snd (first_max kc rest)"
      using first_max_ge [of "(k, count_list xs k)" rest kc] first_max_ge_best [of kc rest]
      by auto
    then show ?thesis by (simp add: r_def)
  next
    case False
    then show ?thesis by (simp add: count_list_0_iff)
  qed
  show ?thesis
    using mc in_xs cnt ge by (cases r) auto
qed

lemma deque_append_nonempty: "deque_append h x \<noteq> []"
  by (simp add: deque_append_def)

lemma deque_append_length: "length h \<le> maxlen \<Longrightarrow> length (deque_append h x) \<le> maxlen"
  by (auto simp: deque_append_def maxlen_def)

section \<open>Lemmas on process\_audio\_buffer\<close>

lemma freq_to_midi_pos:
  "fr > 0 \<Longrightarrow> freq_to_midi fr = Inr (Some (py_int_of_float (69 + 12 * log 2 (fr / 440))))"
  by (simp add: freq_to_midi_def)

lemma passes_gate_note: "passes_gate blk \<Longrightarrow> \<exists>n. block_note blk n"
  by (simp add: block_note_def passes_gate_def freq_to_midi_def)

text \<open>A block that does not pass the gate clears the window and the stable note.\<close>

lemma pab_silence:
  assumes "\<not> (am > 0.001 \<and> fr > 20)"
  shows "process_audio_buffer fr am s =
           Inr (\<lparr>is_valid = False, midi_note = None, is_new_note = False,
                 freq = fr, amplitude = am\<rparr>,
                s\<lparr>note_history := [], current_stable_note := None\<rparr>)"
  using assms by (auto simp: process_audio_buffer_def Let_def)

text \<open>
  A block that passes the gate and quantizes to \<open>n\<close>: with \<open>m\<close> the majority note of the
  new window and \<open>c\<close> its count, the result is valid exactly when \<open>c\<close> reaches
  \<open>required_stability\<close>.
\<close>

lemma pab_note:
  assumes "am > 0.001" and "fr > 20" and "freq_to_midi fr = Inr (Some n)"
  shows "\<exists>m c. m \<in> set (deque_append (note_history s) n)
           \<and> c = count_list (deque_append (note_history s) n) m
           \<and> (\<forall>k. count_list (deque_append (note_history s) n) k \<le> c)
           \<and> process_audio_buffer fr am s =
               Inr (\<lparr>is_valid = (required_stability s \<le> int c),
                     midi_note = (if required_stability s \<le> int c then Some m else None),
                     is_new_note =
                       (required_stability s \<le> int c \<and> Some m \<noteq> current_stable_note s),
                     freq = fr, amplitude = am\<rparr>,
                    s\<lparr>note_history := deque_append (note_history s) n,
                      current_stable_note :=
                        (if required_stability s \<le> int c then Some m
                         else current_stable_note s)\<rparr>)"
proof -
  define h where "h = deque_append (note_history s) n"
  have "h \<noteq> []" by (simp add: h_def deque_append_nonempty)
  then obtain m c where mc: "most_common1 (Counter h) = Some (m, c)" and m: "m \<in> set h"
    and c: "c = count_list h m" and ge: "\<forall>k. count_list h k \<le> c"
    using most_common1_Counter [of h] by blast
  have cl: "c \<le> length h" by (simp add: c count_le_length)
  have "process_audio_buffer fr am s =
               Inr (\<lparr>is_valid = (required_stability s \<le> int c),
                     midi_note = (if required_stability s \<le> int c then Some m else None),
                     is_new_note =
                       (required_stability s \<le> int c \<and> Some m \<noteq> current_stable_note s),
                     freq = fr, amplitude = am\<rparr>,
                    s\<lparr>note_history := h,
                      current_stable_note :=
                        (if required_stability s \<le> int c then Some m
                         else current_stable_note s)\<rparr>)"
    using assms mc cl
    by (auto simp: process_audio_buffer_def py_round_int_def h_def [symmetric] Let_def)
  with m c ge show ?thesis unfolding h_def by blast
qed

section \<open>Lemmas on the MIDI loop\<close>

text \<open>One iteration of the MIDI loop on a Silence and on a Note(n) observation.\<close>

lemma midi_iteration_silence:
  assumes "\<not> passes_gate blk"
  shows "midi_iteration ch blk w =
     ((case midi_current_note w of None \<Rightarrow> []
       | Some c \<Rightarrow> [Send (NoteOffMsg c ch), NoteOffSignal]),
      w\<lparr>midi_audio_processor :=
          (midi_audio_processor w)\<lparr>note_history := [], current_stable_note := None\<rparr>,
        midi_current_note := None\<rparr>)"
proof -
  from assms have "\<not> (snd blk > 0.001 \<and> fst blk > 20)"
    by (simp add: passes_gate_def)
  then show ?thesis
    by (simp add: midi_iteration_def pab_silence split: option.splits)
qed

lemma midi_iteration_note:
  assumes "block_note blk n"
  shows "\<exists>m c. m \<in> set (deque_append (note_history (midi_audio_processor w)) n)
      \<and> c = count_list (deque_append (note_history (midi_audio_processor w)) n) m
      \<and> (\<forall>k. count_list (deque_append (note_history (midi_audio_processor w)) n) k \<le> c)
      \<and> midi_iteration ch blk w =
         (if required_stability (midi_audio_processor w) \<le> int c then
            (if Some m \<noteq> current_stable_note (midi_audio_processor w) then
               ((case midi_current_note w of None \<Rightarrow> []
                 | Some c0 \<Rightarrow> [Send (NoteOffMsg c0 ch)])
                @ [Send (NoteOnMsg m 64 ch), StatusSignal (StatusNote m), NoteDetectedSignal m],
                w\<lparr>midi_audio_processor :=
                    (midi_audio_processor w)
                      \<lparr>note_history := deque_append (note_history (midi_audio_processor w)) n,
                       current_stable_note := Some m\<rparr>,
                  midi_current_note := Some m\<rparr>)
             else
               ([], w\<lparr>midi_audio_processor :=
                      (midi_audio_processor w)
                        \<lparr>note_history :=
                           deque_append (note_history (midi_audio_processor w)) n\<rparr>\<rparr>))
          else
            ((case midi_current_note w of None \<Rightarrow> []
              | Some c0 \<Rightarrow> [Send (NoteOffMsg c0 ch), NoteOffSignal]),
             w\<lparr>midi_audio_processor :=
                 (midi_audio_processor w)
                   \<lparr>note_history := deque_append (note_history (midi_audio_processor w)) n\<rparr>,
               midi_current_note := None\<rparr>))"
proof -
  from assms have g: "snd blk > 0.001" "fst blk > 20" "freq_to_midi (fst blk) = Inr (Some n)"
    by (simp_all add: block_note_def passes_gate_def)
  from pab_note [OF g, of "midi_audio_processor w"]
  obtain m c where m: "m \<in> set (deque_append (note_history (midi_audio_processor w)) n)"
    and c: "c = count_list (deque_append (note_history (midi_audio_processor w)) n) m"
    and ge: "\<forall>k. count_list (deque_append (note_history (midi_audio_processor w)) n) k \<le> c"
    and p: "process_audio_buffer (fst blk) (snd blk) (midi_audio_processor w) =
               Inr (\<lparr>is_valid = (required_stability (midi_audio_processor w) \<le> int c),
                     midi_note = (if required_stability (midi_audio_processor w) \<le> int c then Some m else None),
                     is_new_note =
                       (required_stability (midi_audio_processor w) \<le> int c \<and> Some m \<noteq> current_stable_note (midi_audio_processor w)),
                     freq = fst blk, amplitude = snd blk\<rparr>,
                    (midi_audio_processor w)\<lparr>note_history := deque_append (note_history (midi_audio_processor w)) n,
                      current_stable_note :=
                        (if required_stability (midi_audio_processor w) \<le> int c then Some m
                         else current_stable_note (midi_audio_processor w))\<rparr>)"
    by blast
  have "midi_iteration ch blk w =
         (if required_stability (midi_audio_processor w) \<le> int c then
            (if Some m \<noteq> current_stable_note (midi_audio_processor w) then
               ((case midi_current_note w of None \<Rightarrow> []
                 | Some c0 \<Rightarrow> [Send (NoteOffMsg c0 ch)])
                @ [Send (NoteOnMsg m 64 ch), StatusSignal (StatusNote m), NoteDetectedSignal m],
                w\<lparr>midi_audio_processor :=
                    (midi_audio_processor w)
                      \<lparr>note_history := deque_append (note_history (midi_audio_processor w)) n,
                       current_stable_note := Some m\<rparr>,
                  midi_current_note := Some m\<rparr>)
             else
               ([], w\<lparr>midi_audio_processor :=
                      (midi_audio_processor w)
                        \<lparr>note_history :=
                           deque_append (note_history (midi_audio_processor w)) n\<rparr>\<rparr>))
          else
            ((case midi_current_note w of None \<Rightarrow> []
              | Some c0 \<Rightarrow> [Send (NoteOffMsg c0 ch), NoteOffSignal]),
             w\<lparr>midi_audio_processor :=
                 (midi_audio_processor w)
                   \<lparr>note_history := deque_append (note_history (midi_audio_processor w)) n\<rparr>,
               midi_current_note := None\<rparr>))"
    unfolding midi_iteration_def p
    by (cases "midi_current_note w") (auto simp: Let_def)
  with m c ge show ?thesis by blast
qed

lemma events_of_pre [simp]:
  "events_of ((case x of None \<Rightarrow> [] | Some c0 \<Rightarrow> [Send (NoteOffMsg c0 ch)]) @ acts) = events_of acts"
  by (cases x) simp_all

lemma midi_iteration_events:
  "events_of (fst (midi_iteration ch blk w)) = []
   \<or> (events_of (fst (midi_iteration ch blk w)) = [NoteOff] \<and> midi_current_note w \<noteq> None)
   \<or> (\<exists>n. events_of (fst (midi_iteration ch blk w)) = [NoteChanged n]
          \<and> current_stable_note (midi_audio_processor w) \<noteq> Some n)"
proof (cases "passes_gate blk")
  case False
  then show ?thesis
    by (cases "midi_current_note w") (simp_all add: midi_iteration_silence)
next
  case True
  then obtain n where "block_note blk n" using passes_gate_note by blast
  from midi_iteration_note [OF this, of w ch] show ?thesis
    by (cases "midi_current_note w") (auto split: if_splits)
qed

lemma midi_trace_fst: "map snd (midi_trace ch blks w) = fst (midi_process_audio ch blks w)"
  by (induction blks arbitrary: w) (auto simp: Let_def split: prod.splits)

lemma count_list_replicate: "count_list (replicate k n) n = k"
  by (induction k) simp_all

lemma midi_process_audio_Cons:
  "midi_running w \<Longrightarrow>
     fst (midi_process_audio ch (blk # blks) w)
       = fst (midi_iteration ch blk w)
         # fst (midi_process_audio ch blks (snd (midi_iteration ch blk w)))"
  by (simp add: Let_def split: prod.splits)

lemma midi_process_audio_Cons_state:
  "midi_running w \<Longrightarrow>
     snd (midi_process_audio ch (blk # blks) w)
       = snd (midi_process_audio ch blks (snd (midi_iteration ch blk w)))"
  by (simp add: Let_def split: prod.splits)

lemma deque_append_replicate:
  "deque_append (replicate (min j maxlen) n) n = replicate (min (Suc j) maxlen) n"
proof (cases "j < maxlen")
  case True
  then have "min j maxlen = j" "min (Suc j) maxlen = Suc j" by simp_all
  with True show ?thesis
    by (simp add: deque_append_def replicate_append_same)
next
  case False
  then have "min j maxlen = maxlen" "min (Suc j) maxlen = maxlen" by simp_all
  then show ?thesis
    by (simp add: deque_append_def maxlen_def numeral_eq_Suc replicate_append_same)
qed

text \<open>Consecutive Note(n) observations from a reset state.\<close>

lemma after_same_step:
  assumes inv: "after_same r n j w" and r: "1 \<le> r" "r \<le> int maxlen"
    and b: "block_note blk n"
  shows "events_of (fst (midi_iteration ch blk w))
           = (if int j + 1 = r then [NoteChanged n] else [])
         \<and> after_same r n (Suc j) (snd (midi_iteration ch blk w))"
proof -
  let ?h = "deque_append (note_history (midi_audio_processor w)) n"
  have h: "?h = replicate (min (Suc j) maxlen) n"
    using inv by (simp add: after_same_def deque_append_replicate)
  from midi_iteration_note [OF b, of w ch] obtain m c where
    m: "m \<in> set ?h" and c: "c = count_list ?h m" and
    it: "midi_iteration ch blk w =
         (if required_stability (midi_audio_processor w) \<le> int c then
            (if Some m \<noteq> current_stable_note (midi_audio_processor w) then
               ((case midi_current_note w of None \<Rightarrow> []
                 | Some c0 \<Rightarrow> [Send (NoteOffMsg c0 ch)])
                @ [Send (NoteOnMsg m 64 ch), StatusSignal (StatusNote m), NoteDetectedSignal m],
                w\<lparr>midi_audio_processor :=
                    (midi_audio_processor w)
                      \<lparr>note_history := ?h, current_stable_note := Some m\<rparr>,
                  midi_current_note := Some m\<rparr>)
             else
               ([], w\<lparr>midi_audio_processor :=
                      (midi_audio_processor w)\<lparr>note_history := ?h\<rparr>\<rparr>))
          else
            ((case midi_current_note w of None \<Rightarrow> []
              | Some c0 \<Rightarrow> [Send (NoteOffMsg c0 ch), NoteOffSignal]),
             w\<lparr>midi_audio_processor := (midi_audio_processor w)\<lparr>note_history := ?h\<rparr>,
               midi_current_note := None\<rparr>))"
    by blast
  from m h have mn: "m = n" by simp
  have cv: "c = min (Suc j) maxlen" by (simp add: c h mn count_list_replicate)
  have le: "r \<le> int c \<longleftrightarrow> r \<le> int j + 1" using r by (auto simp: cv)
  note it' = it [unfolded h]
  show ?thesis
    using inv r unfolding it' after_same_def by (auto simp: mn le)
qed

lemma after_same_run:
  assumes "after_same r n j w" and "1 \<le> r" and "r \<le> int maxlen"
    and "\<forall>b \<in> set blks. block_note b n"
  shows "map events_of (fst (midi_process_audio ch blks w))
           = map (\<lambda>i. if int (j + i) + 1 = r then [NoteChanged n] else []) [0..<length blks]"
  using assms
proof (induction blks arbitrary: j w)
  case Nil
  then show ?case by simp
next
  case (Cons blk blks)
  have run: "midi_running w" using Cons.prems(1) by (simp add: after_same_def)
  have b: "block_note blk n" using Cons.prems(4) by simp
  from after_same_step [OF Cons.prems(1-3) b, of ch]
  have ev: "events_of (fst (midi_iteration ch blk w))
              = (if int j + 1 = r then [NoteChanged n] else [])"
    and inv': "after_same r n (Suc j) (snd (midi_iteration ch blk w))" by simp_all
  have rest: "map events_of (fst (midi_process_audio ch blks (snd (midi_iteration ch blk w))))
           = map (\<lambda>i. if int (Suc j + i) + 1 = r then [NoteChanged n] else [])
               [0..<length blks]"
    using Cons.IH [OF inv' Cons.prems(2,3)] Cons.prems(4) by simp
  have shift: "map (\<lambda>i. if int (j + i) + 1 = r then [NoteChanged n] else [])
                 [0..<length (blk # blks)]
        = (if int j + 1 = r then [NoteChanged n] else [])
          # map (\<lambda>i. if int (Suc j + i) + 1 = r then [NoteChanged n] else [])
              [0..<length blks]"
    by (simp add: upt_conv_Cons map_Suc_upt [symmetric] del: upt_Suc)
  show ?case
    unfolding shift midi_process_audio_Cons [OF run] using ev rest
    by (simp del: midi_process_audio.simps)
qed

text \<open>
  Windows in which no count reaches the threshold: from a state in which the loop
  holds no note, such blocks emit no event and leave the stable note as it was.
\<close>

lemma count_list_tl: "count_list (tl h) m \<le> count_list h m"
  by (cases h) simp_all

lemma count_list_deque_append:
  "count_list (deque_append h n) m \<le> count_list h m + (if n = m then 1 else 0)"
  using count_list_tl [of h m] by (simp add: deque_append_def)

lemma below_agreement_counts:
  assumes "\<forall>m. int (count_list h m) + int (count_list ns m) < r"
  shows "below_agreement r h ns"
  using assms
proof (induction ns arbitrary: h)
  case Nil
  then show ?case by simp
next
  case (Cons n ns)
  have le: "int (count_list (deque_append h n) m) + int (count_list ns m)
              \<le> int (count_list h m) + int (count_list (n # ns) m)" for m
    using count_list_deque_append [of h n m] by (simp split: if_splits)
  have a: "\<forall>m. int (count_list (deque_append h n) m) + int (count_list ns m) < r"
  proof
    fix m
    show "int (count_list (deque_append h n) m) + int (count_list ns m) < r"
      using le [of m] Cons.prems by (meson le_less_trans)
  qed
  have b: "int (count_list (deque_append h n) m) < r" for m
  proof -
    have "int (count_list (deque_append h n) m)
            \<le> int (count_list (deque_append h n) m) + int (count_list ns m)" by simp
    also have "\<dots> < r" using a by blast
    finally show ?thesis .
  qed
  show ?case using Cons.IH [OF a] b by simp
qed

text \<open>
  While no note's count in the window reaches the threshold and the loop holds no
  note, an iteration emits nothing and changes only the window.
\<close>

lemma quiet_step:
  assumes cur: "midi_current_note w = None" and b: "block_note blk n"
    and q: "\<forall>m \<in> set (deque_append (note_history (midi_audio_processor w)) n).
              int (count_list (deque_append (note_history (midi_audio_processor w)) n) m)
                < required_stability (midi_audio_processor w)"
  shows "midi_iteration ch blk w =
           ([], w\<lparr>midi_audio_processor :=
                   (midi_audio_processor w)
                     \<lparr>note_history := deque_append (note_history (midi_audio_processor w)) n\<rparr>,
                 midi_current_note := None\<rparr>)"
proof -
  let ?h = "deque_append (note_history (midi_audio_processor w)) n"
  from midi_iteration_note [OF b, of w ch] obtain m c where
    m: "m \<in> set ?h" and c: "c = count_list ?h m" and
    it: "midi_iteration ch blk w =
         (if required_stability (midi_audio_processor w) \<le> int c then
            (if Some m \<noteq> current_stable_note (midi_audio_processor w) then
               ((case midi_current_note w of None \<Rightarrow> []
                 | Some c0 \<Rightarrow> [Send (NoteOffMsg c0 ch)])
                @ [Send (NoteOnMsg m 64 ch), StatusSignal (StatusNote m), NoteDetectedSignal m],
                w\<lparr>midi_audio_processor :=
                    (midi_audio_processor w)
                      \<lparr>note_history := ?h, current_stable_note := Some m\<rparr>,
                  midi_current_note := Some m\<rparr>)
             else
               ([], w\<lparr>midi_audio_processor :=
                      (midi_audio_processor w)\<lparr>note_history := ?h\<rparr>\<rparr>))
          else
            ((case midi_current_note w of None \<Rightarrow> []
              | Some c0 \<Rightarrow> [Send (NoteOffMsg c0 ch), NoteOffSignal]),
             w\<lparr>midi_audio_processor := (midi_audio_processor w)\<lparr>note_history := ?h\<rparr>,
               midi_current_note := None\<rparr>))"
    by blast
  from q m c have "\<not> required_stability (midi_audio_processor w) \<le> int c" by auto
  then show ?thesis using cur by (simp add: it)
qed

lemma quiet_trace:
  assumes "midi_current_note w = None" and "list_all2 block_note blks ns"
    and "below_agreement (required_stability (midi_audio_processor w))
           (note_history (midi_audio_processor w)) ns"
  shows "(\<forall>(w0, acts) \<in> set (midi_trace ch blks w).
            events_of acts = []
            \<and> current_stable_note (midi_audio_processor w0)
                = current_stable_note (midi_audio_processor w))
         \<and> current_stable_note (midi_audio_processor (snd (midi_process_audio ch blks w)))
             = current_stable_note (midi_audio_processor w)"
  using assms
proof (induction blks arbitrary: ns w)
  case Nil
  then show ?case by simp
next
  case (Cons blk blks)
  from Cons.prems(2) obtain n ns' where ns: "ns = n # ns'" and b: "block_note blk n"
    and rest: "list_all2 block_note blks ns'"
    by (auto simp: list_all2_Cons1)
  let ?p = "midi_audio_processor w"
  let ?h = "deque_append (note_history ?p) n"
  let ?w1 = "w\<lparr>midi_audio_processor := ?p\<lparr>note_history := ?h\<rparr>, midi_current_note := None\<rparr>"
  from Cons.prems(3) have q: "\<forall>m \<in> set ?h. int (count_list ?h m) < required_stability ?p"
    and q': "below_agreement (required_stability ?p) ?h ns'"
    by (simp_all add: ns)
  have it: "midi_iteration ch blk w = ([], ?w1)"
    by (rule quiet_step [OF Cons.prems(1) b q])
  have ih: "(\<forall>(w0, acts) \<in> set (midi_trace ch blks ?w1).
            events_of acts = []
            \<and> current_stable_note (midi_audio_processor w0)
                = current_stable_note (midi_audio_processor ?w1))
         \<and> current_stable_note (midi_audio_processor (snd (midi_process_audio ch blks ?w1)))
             = current_stable_note (midi_audio_processor ?w1)"
    using Cons.IH [of ?w1 ns'] rest q' by simp
  show ?case
  proof (cases "midi_running w")
    case False
    then show ?thesis by simp
  next
    case True
    then show ?thesis
      using ih by (simp add: it midi_process_audio_Cons_state del: midi_process_audio.simps)
  qed
qed

text \<open>\<open>process_audio_buffer\<close> always returns; what it does to the stable note.\<close>

lemma pab_returns: "\<exists>res s'. process_audio_buffer fr am s = Inr (res, s')"
proof (cases "am > 0.001 \<and> fr > 20")
  case True
  then have "freq_to_midi fr = Inr (Some (py_int_of_float (69 + 12 * log 2 (fr / 440))))"
    by (simp add: freq_to_midi_pos)
  with True pab_note [of am fr _ s] show ?thesis by blast
next
  case False
  then show ?thesis using pab_silence [of am fr s] by blast
qed

lemma process_blocks_returns: "\<exists>ress s'. process_blocks blks s = Inr (ress, s')"
proof (induction blks arbitrary: s)
  case Nil
  then show ?case by simp
next
  case (Cons blk blks)
  obtain res s1 where 1: "process_audio_buffer (fst blk) (snd blk) s = Inr (res, s1)"
    using pab_returns by blast
  obtain ress s2 where 2: "process_blocks blks s1 = Inr (ress, s2)"
    using Cons.IH by blast
  show ?case by (simp add: 1 2)
qed

lemma pab_gate_stable:
  assumes "passes_gate blk"
  shows "\<exists>res s'. process_audio_buffer (fst blk) (snd blk) s = Inr (res, s')
           \<and> (if is_valid res
               then midi_note res \<noteq> None \<and> current_stable_note s' = midi_note res
                    \<and> (is_new_note res \<longleftrightarrow> midi_note res \<noteq> current_stable_note s)
               else \<not> is_new_note res \<and> midi_note res = None
                    \<and> current_stable_note s' = current_stable_note s)"
proof -
  from assms obtain n where "block_note blk n" using passes_gate_note by blast
  then have g: "snd blk > 0.001" "fst blk > 20" "freq_to_midi (fst blk) = Inr (Some n)"
    by (simp_all add: block_note_def passes_gate_def)
  from pab_note [OF g, of s] obtain m c where
    p: "process_audio_buffer (fst blk) (snd blk) s =
               Inr (\<lparr>is_valid = (required_stability s \<le> int c),
                     midi_note = (if required_stability s \<le> int c then Some m else None),
                     is_new_note =
                       (required_stability s \<le> int c \<and> Some m \<noteq> current_stable_note s),
                     freq = fst blk, amplitude = snd blk\<rparr>,
                    s\<lparr>note_history := deque_append (note_history s) n,
                      current_stable_note :=
                        (if required_stability s \<le> int c then Some m
                         else current_stable_note s)\<rparr>)"
    by blast
  show ?thesis unfolding p by simp
qed

lemma process_blocks_keeps_stable:
  assumes "\<forall>b \<in> set blks. passes_gate b" and "process_blocks blks s = Inr (ress, s1)"
    and "\<forall>res \<in> set ress. \<not> is_valid res"
  shows "current_stable_note s1 = current_stable_note s"
  using assms
proof (induction blks arbitrary: s ress)
  case Nil
  then show ?case by simp
next
  case (Cons blk blks)
  from Cons.prems(1) have g: "passes_gate blk" by simp
  from pab_gate_stable [OF g, of s] obtain res s' where
    p: "process_audio_buffer (fst blk) (snd blk) s = Inr (res, s')"
    and k: "\<not> is_valid res \<longrightarrow> current_stable_note s' = current_stable_note s"
    by (auto split: if_splits)
  from Cons.prems(2) p obtain ress' where
    r: "process_blocks blks s' = Inr (ress', s1)" and rr: "ress = res # ress'"
    by (auto split: sum.splits)
  from Cons.prems(3) rr have nv: "\<not> is_valid res" and nvs: "\<forall>res \<in> set ress'. \<not> is_valid res"
    by simp_all
  have "current_stable_note s1 = current_stable_note s'"
    using Cons.IH [OF _ r nvs] Cons.prems(1) by simp
  with k nv show ?case by simp
qed

section \<open>Evaluation on concrete blocks\<close>

text \<open>Frequencies an octave apart: 440 Hz, 880 Hz and 220 Hz give the notes 69, 81 and 57.\<close>

lemma freq_to_midi_440: "freq_to_midi 440 = Inr (Some 69)"
  by (simp add: freq_to_midi_def py_int_of_float_def)

lemma freq_to_midi_880: "freq_to_midi 880 = Inr (Some 81)"
proof -
  have "log 2 (880 / 440) = 1" by simp
  then show ?thesis by (simp add: freq_to_midi_def py_int_of_float_def)
qed

lemma freq_to_midi_220: "freq_to_midi 220 = Inr (Some 57)"
proof -
  have "log 2 (220 / 440) = log 2 (1 / 2)" by simp
  also have "\<dots> = - 1" by (simp add: log_divide)
  finally show ?thesis by (simp add: freq_to_midi_def py_int_of_float_def)
qed

text \<open>Bounds on the logarithm from powers of rationals, for other frequencies.\<close>

lemma mul_log2_ge:
  assumes "0 < x" and "2 powr k \<le> x ^ d" 
  shows "k \<le> real d * log 2 x"
proof -
  have "k \<le> log 2 (x ^ d)"
    using assms by (simp add: le_log_iff)
  then show ?thesis using assms(1) by (simp add: log_nat_power)
qed

lemma mul_log2_less:
  assumes "0 < x" and "x ^ d < 2 powr k"
  shows "real d * log 2 x < k"
proof -
  have "log 2 (x ^ d) < k"
    using assms by (simp add: log_less_iff)
  then show ?thesis using assms(1) by (simp add: log_nat_power)
qed

lemma freq_to_midi_270: "freq_to_midi 270 = Inr (Some 60)"
proof -
  let ?x = "270 / 440 :: real"
  have "2 powr (- 3) \<le> ?x ^ 4" by (simp add: powr_minus_divide power_divide)
  from mul_log2_ge [OF _ this] have lo: "- 3 \<le> 4 * log 2 ?x" by simp
  have "?x ^ 3 < 2 powr (- 2)" by (simp add: powr_minus_divide power_divide)
  from mul_log2_less [OF _ this] have hi: "3 * log 2 ?x < - 2" by simp
  have "60 \<le> 69 + 12 * log 2 ?x" "69 + 12 * log 2 ?x < 61"
    using lo hi by linarith+
  then have "\<lfloor>69 + 12 * log 2 ?x\<rfloor> = 60" by linarith
  moreover have "0 \<le> 69 + 12 * log 2 ?x" using lo by linarith
  ultimately show ?thesis
    by (simp add: freq_to_midi_def py_int_of_float_def)
qed

lemma freq_to_midi_430: "freq_to_midi 430 = Inr (Some 68)"
  and round_430: "round (69 + 12 * log 2 (430 / 440)) = 69"
proof -
  let ?x = "430 / 440 :: real"
  have "2 powr (- 1) \<le> ?x ^ 24" by (simp add: powr_minus_divide power_divide)
  from mul_log2_ge [OF _ this] have lo: "- 1 \<le> 24 * log 2 ?x" by simp
  have "?x ^ 1 < 2 powr 0" by simp
  from mul_log2_less [OF _ this] have hi: "log 2 ?x < 0" by simp
  have b: "68 + 1 / 2 \<le> 69 + 12 * log 2 ?x" "69 + 12 * log 2 ?x < 69"
    using lo hi by linarith+
  then have "\<lfloor>69 + 12 * log 2 ?x\<rfloor> = 68" by linarith
  moreover have "0 \<le> 69 + 12 * log 2 ?x" using lo by linarith
  ultimately show "freq_to_midi 430 = Inr (Some 68)"
    by (simp add: freq_to_midi_def py_int_of_float_def)
  show "round (69 + 12 * log 2 (430 / 440)) = 69"
    unfolding round_def using b by linarith
qed

lemma block_note_440: "block_note (440, 1 / 10) 69"
  and block_note_880: "block_note (880, 1 / 10) 81"
  and block_note_220: "block_note (220, 1 / 10) 57"
  and block_note_270: "block_note (270, 1 / 10) 60"
  by (simp_all add: block_note_def passes_gate_def freq_to_midi_440 freq_to_midi_880
      freq_to_midi_220 freq_to_midi_270)

lemmas eval_defs = midi_iteration_def process_audio_buffer_def py_round_int_def
  deque_append_def maxlen_def Counter_def most_common1_def update_stability_def
  set_stability_def midi_start_processing_def midi_window_init_def init_processor_def
  reset_def Let_def freq_to_midi_440 freq_to_midi_880 freq_to_midi_220

lemmas kb_eval_defs = kb_iteration_def press_key_def release_key_def
  kb_start_processing_def kb_window_init_def init_keyboard_emulator_def load_mapping_def
  load_row_def note_name_to_midi_def py_int_def py_strip_def py_isspace_def
  py_int_strip_def py_int_isspace_def digit_val_def notes_table_def max_str_digits_def

section \<open>Lemmas on the keyboard emulator\<close>

lemma held_after_append: "held_after (xs @ ys) h = held_after ys (held_after xs h)"
  by (induction xs h rule: held_after.induct) simp_all

lemma kb_inv_at_most_one: "kb_inv e held \<Longrightarrow> at_most_one held"
  by (auto simp: kb_inv_def at_most_one_def split: option.splits)

lemma take_cases2:
  "take k [a, b] = [] \<or> take k [a, b] = [a] \<or> take k [a, b] = [a, b]"
  by (cases k; cases "k - 1") auto

lemma take_cases1: "take k [a] = [] \<or> take k [a] = [a]"
  by (cases k) auto

lemma press_key_cases:
  assumes "press_key n e = (ok, calls, e1)"
  shows "(calls = [] \<and> e1 = e)
       \<or> (\<exists>key. calls = [Press key] \<and> current_key e = None
              \<and> e1 = e\<lparr>current_key := Some key\<rparr>)
       \<or> (\<exists>cur key. calls = [Release cur, Press key] \<and> current_key e = Some cur
              \<and> e1 = e\<lparr>current_key := Some key\<rparr>)"
proof (cases "available e")
  case False
  then show ?thesis using assms by (simp add: press_key_def)
next
  case True
  show ?thesis
  proof (cases "note_to_key_map e n")
    case None
    then show ?thesis using assms True by (simp add: press_key_def)
  next
    case (Some key)
    show ?thesis
    proof (cases "current_key e")
      case None
      then have "press_key n e = (True, [Press key], e\<lparr>current_key := Some key\<rparr>)"
        using True Some by (simp add: press_key_def)
      with assms None show ?thesis by auto
    next
      case cur: (Some cur)
      show ?thesis
      proof (cases "cur = key")
        case True
        then have "press_key n e = (True, [], e)"
          using \<open>available e\<close> Some cur by (simp add: press_key_def)
        with assms show ?thesis by auto
      next
        case False
        then have "press_key n e = (True, [Release cur, Press key], e\<lparr>current_key := Some key\<rparr>)"
          using \<open>available e\<close> Some cur by (simp add: press_key_def)
        with assms cur show ?thesis by auto
      qed
    qed
  qed
qed

lemma release_key_cases:
  assumes "release_key e = (calls, e1)"
  shows "(calls = [] \<and> e1 = e)
       \<or> (\<exists>cur. calls = [Release cur] \<and> current_key e = Some cur
              \<and> e1 = e\<lparr>current_key := None\<rparr>)"
  using assms by (cases "available e"; cases "current_key e") (auto simp: release_key_def)

lemma press_key_inv:
  assumes "kb_inv e held" and "press_key n e = (ok, calls, e1)"
  shows "kb_inv e1 (held_after calls held)
         \<and> (\<forall>k. at_most_one (held_after (take k calls) held))"
proof -
  have amo: "at_most_one held" using assms(1) by (rule kb_inv_at_most_one)
  from press_key_cases [OF assms(2)]
  consider (none) "calls = []" "e1 = e"
    | (fresh) key where "calls = [Press key]" "current_key e = None"
        "e1 = e\<lparr>current_key := Some key\<rparr>"
    | (change) cur key where "calls = [Release cur, Press key]" "current_key e = Some cur"
        "e1 = e\<lparr>current_key := Some key\<rparr>"
    by blast
  then show ?thesis
  proof cases
    case none
    then show ?thesis using assms(1) amo by simp
  next
    case fresh
    have h: "held = {}" using assms(1) fresh(2) by (simp add: kb_inv_def)
    have "at_most_one (held_after (take k [Press key]) held)" for k
      using take_cases1 [of k "Press key"] by (auto simp: h at_most_one_def)
    then show ?thesis using fresh by (simp add: kb_inv_def h)
  next
    case change
    have h: "held = {cur}" using assms(1) change(2) by (simp add: kb_inv_def)
    have "at_most_one (held_after (take k [Release cur, Press key]) held)" for k
      using take_cases2 [of k "Release cur" "Press key"] by (auto simp: h at_most_one_def)
    then show ?thesis using change by (simp add: kb_inv_def h)
  qed
qed

lemma release_key_inv:
  assumes "kb_inv e held" and "release_key e = (calls, e1)"
  shows "kb_inv e1 (held_after calls held)
         \<and> (\<forall>k. at_most_one (held_after (take k calls) held))"
proof -
  have amo: "at_most_one held" using assms(1) by (rule kb_inv_at_most_one)
  from release_key_cases [OF assms(2)]
  consider (none) "calls = []" "e1 = e"
    | (rel) cur where "calls = [Release cur]" "current_key e = Some cur"
        "e1 = e\<lparr>current_key := None\<rparr>"
    by blast
  then show ?thesis
  proof cases
    case none
    then show ?thesis using assms(1) amo by simp
  next
    case rel
    have h: "held = {cur}" using assms(1) rel(2) by (simp add: kb_inv_def)
    have "at_most_one (held_after (take k [Release cur]) held)" for k
      using take_cases1 [of k "Release cur"] by (auto simp: h at_most_one_def)
    then show ?thesis using rel by (simp add: kb_inv_def h)
  qed
qed

lemma held_after_take_append:
  assumes "\<And>j. at_most_one (held_after (take j xs) h)"
    and "\<And>j. at_most_one (held_after (take j ys) (held_after xs h))"
  shows "at_most_one (held_after (take k (xs @ ys)) h)"
proof (cases "k \<le> length xs")
  case True
  then show ?thesis using assms(1) [of k] by simp
next
  case False
  then have "take k (xs @ ys) = xs @ take (k - length xs) ys" by simp
  then show ?thesis using assms(2) [of "k - length xs"] by (simp add: held_after_append)
qed

lemma kb_ops_inv:
  assumes "kb_inv e held"
  shows "at_most_one (held_after (take k (fst (kb_ops ops e))) held)"
  using assms
proof (induction ops arbitrary: e held k)
  case Nil
  then show ?case by (simp add: kb_inv_at_most_one)
next
  case (Cons op ops)
  show ?case
  proof (cases op)
    case (PressKey n)
    obtain ok calls e1 where p: "press_key n e = (ok, calls, e1)"
      by (cases "press_key n e") auto
    obtain rest e2 where r: "kb_ops ops e1 = (rest, e2)" by (cases "kb_ops ops e1") auto
    from press_key_inv [OF Cons.prems p]
    have i1: "kb_inv e1 (held_after calls held)"
      and a1: "\<And>k. at_most_one (held_after (take k calls) held)" by simp_all
    have "at_most_one (held_after (take j rest) (held_after calls held))" for j
      using Cons.IH [OF i1, of j] r by simp
    then show ?thesis
      unfolding PressKey using held_after_take_append [of calls held rest k] a1
      by (simp add: p r)
  next
    case ReleaseKey
    obtain calls e1 where p: "release_key e = (calls, e1)"
      by (cases "release_key e") auto
    obtain rest e2 where r: "kb_ops ops e1 = (rest, e2)" by (cases "kb_ops ops e1") auto
    from release_key_inv [OF Cons.prems p]
    have i1: "kb_inv e1 (held_after calls held)"
      and a1: "\<And>k. at_most_one (held_after (take k calls) held)" by simp_all
    have "at_most_one (held_after (take j rest) (held_after calls held))" for j
      using Cons.IH [OF i1, of j] r by simp
    then show ?thesis
      unfolding ReleaseKey using held_after_take_append [of calls held rest k] a1
      by (simp add: p r)
  qed
qed

lemma note_name_A4: "note_name_to_midi ''A4'' = Some 69"
  and note_name_B4: "note_name_to_midi ''B4'' = Some 71"
  by (simp_all add: note_name_to_midi_def py_int_def py_int_strip_def py_int_isspace_def
      digit_val_def notes_table_def max_str_digits_def)

lemma two_key_emulator_eq:
  "two_key_emulator =
     \<lparr>available = True, current_key = None,
      note_to_key_map = [69 \<mapsto> ''a'', 71 \<mapsto> ''b'']\<rparr>"
  by (simp add: two_key_emulator_def load_mapping_def load_row_def init_keyboard_emulator_def
      py_strip_def py_isspace_def note_name_A4 note_name_B4)

section \<open>Lemmas on the mapping file\<close>

text \<open>What \<open>int\<close> accepts and what it rejects.\<close>

lemma dropWhile_keeps: "x \<in> set xs \<Longrightarrow> \<not> P x \<Longrightarrow> x \<in> set (dropWhile P xs)"
  by (induction xs) auto

lemma py_int_strip_keeps:
  "c \<in> set s \<Longrightarrow> \<not> py_int_isspace c \<Longrightarrow> c \<in> set (py_int_strip s)"
  by (simp add: py_int_strip_def dropWhile_keeps)

lemma py_int_strip_Cons:
  "\<not> py_int_isspace c \<Longrightarrow>
     py_int_strip (c # cs) = c # rev (dropWhile py_int_isspace (rev cs))"
  by (simp add: py_int_strip_def dropWhile_append3)

lemma py_int_strip_id:
  assumes "s \<noteq> []" and "\<not> py_int_isspace (hd s)" and "\<not> py_int_isspace (last s)"
  shows "py_int_strip s = s"
proof -
  from assms(1,2) have 1: "dropWhile py_int_isspace s = s" by (cases s) simp_all
  from assms(1,3) have 2: "dropWhile py_int_isspace (rev s) = rev s"
    by (cases "rev s") (simp_all add: last_rev [symmetric] hd_rev)
  show ?thesis by (simp add: py_int_strip_def 1 2)
qed

lemma digit_val_Some:
  assumes "digit_val c = Some v"
  shows "of_char c = 48 + v" and "\<not> py_int_isspace c"
    and "c \<noteq> CHR ''_''" and "c \<noteq> CHR ''+''" and "c \<noteq> CHR ''-''"
  using assms by (auto simp: digit_val_def py_int_isspace_def split: if_splits)

lemma digits_value_digits:
  "\<forall>c \<in> set ds. digit_val c \<noteq> None \<Longrightarrow>
     digits_value acc ds = Some (foldl (\<lambda>a c. 10 * a + (of_char c - 48)) acc ds)"
proof (induction acc ds rule: digits_value.induct)
  case (1 acc)
  then show ?case by simp
next
  case (2 acc c)
  then obtain v where v: "digit_val c = Some v" by auto
  from digit_val_Some(1) [OF v] show ?case by (simp add: v)
next
  case (3 acc c d ds)
  then obtain v where v: "digit_val c = Some v" by auto
  from digit_val_Some [OF v] have o: "of_char c - 48 = v" and u: "c \<noteq> CHR ''_''" by simp_all
  from "3.prems" have rest: "\<forall>x \<in> set (d # ds). digit_val x \<noteq> None" by simp
  show ?case using "3.IH"(2) [OF u v rest] by (simp add: u v o)
qed

lemma py_int_digits:
  assumes ne: "ds \<noteq> []" and dg: "\<forall>c \<in> set ds. digit_val c \<noteq> None"
    and len: "length ds \<le> max_str_digits"
  shows "py_int ds = Some (int (decimal_value ds))"
    and "py_int (CHR ''-'' # ds) = Some (- int (decimal_value ds))"
proof -
  from ne obtain d ds' where ds: "ds = d # ds'" by (cases ds) auto
  from dg ds obtain v where v: "digit_val d = Some v" by auto
  have sp: "\<not> py_int_isspace x" if "x \<in> set ds" for x
    using dg that digit_val_Some(2) by (metis option.exhaust)
  have "\<not> py_int_isspace (hd ds)" "\<not> py_int_isspace (last ds)"
    using sp ne by simp_all
  then have st: "py_int_strip ds = ds" using ne by (simp add: py_int_strip_id)
  have "\<not> py_int_isspace CHR ''-''" by (simp add: py_int_isspace_def)
  moreover have "last (CHR ''-'' # ds) = last ds" using ne by simp
  ultimately have st': "py_int_strip (CHR ''-'' # ds) = CHR ''-'' # ds"
    using \<open>\<not> py_int_isspace (last ds)\<close> by (intro py_int_strip_id) simp_all
  have fl: "filter (\<lambda>c. digit_val c \<noteq> None) ds = ds" using dg by (simp add: filter_id_conv)
  have sg: "d \<noteq> CHR ''-''" "d \<noteq> CHR ''+''" using digit_val_Some [OF v] by simp_all
  have rest: "\<forall>c \<in> set ds'. digit_val c \<noteq> None" using dg ds by simp
  have val: "digits_value v ds' = Some (decimal_value ds)"
    using digits_value_digits [OF rest, of v] digit_val_Some(1) [OF v]
    by (simp add: decimal_value_def ds)
  have fl': "filter (\<lambda>c. digit_val c \<noteq> None) (d # ds') = d # ds'" using fl ds by simp
  show "py_int ds = Some (int (decimal_value ds))"
    unfolding py_int_def st using len val fl' sg v
    by (simp add: ds Let_def del: filter.simps)
  show "py_int (CHR ''-'' # ds) = Some (- int (decimal_value ds))"
    unfolding py_int_def st' using len val fl' sg v
    by (simp add: ds Let_def del: filter.simps)
qed

lemma digits_value_junk:
  "c \<in> set ds \<Longrightarrow> digit_val c = None \<Longrightarrow> c \<noteq> CHR ''_'' \<Longrightarrow> digits_value acc ds = None"
proof (induction acc ds rule: digits_value.induct)
  case (1 acc)
  then show ?case by simp
next
  case (2 acc x)
  then show ?case by simp
next
  case (3 acc x d ds)
  show ?case
  proof (cases "x = CHR ''_''")
    case True
    show ?thesis
    proof (cases "digit_val d")
      case None
      then show ?thesis using True by simp
    next
      case (Some v)
      with "3.prems" True have "c \<in> set ds" by auto
      from "3.IH"(1) [OF True Some this "3.prems"(2,3)] show ?thesis
        using True Some by simp
    qed
  next
    case False
    show ?thesis
    proof (cases "digit_val x")
      case None
      then show ?thesis using False by simp
    next
      case (Some v)
      with "3.prems" have "c \<in> set (d # ds)" by auto
      from "3.IH"(2) [OF False Some this "3.prems"(2,3)] show ?thesis
        using False Some by simp
    qed
  qed
qed

lemma py_int_unfold:
  assumes "py_int_strip s = a # as"
  shows "py_int s =
     (case (if a = CHR ''-'' \<or> a = CHR ''+'' then as else a # as) of
        [] \<Rightarrow> None
      | d # ds \<Rightarrow>
          (case digit_val d of
             None \<Rightarrow> None
           | Some v \<Rightarrow>
               if length (filter (\<lambda>c. digit_val c \<noteq> None)
                     (if a = CHR ''-'' \<or> a = CHR ''+'' then as else a # as)) > max_str_digits
               then None
               else (case digits_value v ds of
                       None \<Rightarrow> None
                     | Some n \<Rightarrow> Some (if a = CHR ''-'' then - int n else int n))))"
  unfolding py_int_def assms Let_def list.case
  by (auto split: list.splits option.splits)

lemma py_int_junk:
  assumes c: "c \<in> set s" and nd: "digit_val c = None" and nu: "c \<noteq> CHR ''_''"
    and ns: "c \<noteq> CHR ''+''" "c \<noteq> CHR ''-''" and nw: "\<not> py_int_isspace c"
  shows "py_int s = None"
proof -
  have ct: "c \<in> set (py_int_strip s)" using c nw by (rule py_int_strip_keeps)
  then obtain a as where t: "py_int_strip s = a # as" by (cases "py_int_strip s") auto
  define body where "body = (if a = CHR ''-'' \<or> a = CHR ''+'' then as else a # as)"
  have cb: "c \<in> set body" using ct ns by (auto simp: body_def t)
  then obtain d ds where b: "body = d # ds" by (cases body) auto
  have inner: "(case digit_val d of
                None \<Rightarrow> None
              | Some v \<Rightarrow>
                  if length (filter (\<lambda>c. digit_val c \<noteq> None) body) > max_str_digits then None
                  else (case digits_value v ds of
                          None \<Rightarrow> None
                        | Some n \<Rightarrow> Some (if a = CHR ''-'' then - int n else int n))) = None"
  proof (cases "digit_val d")
    case None
    then show ?thesis by simp
  next
    case (Some v)
    with nd have "d \<noteq> c" by auto
    with cb b have "c \<in> set ds" by auto
    from digits_value_junk [OF this nd nu] show ?thesis by (simp add: Some)
  qed
  show ?thesis
    unfolding py_int_unfold [OF t] body_def [symmetric] using inner by (simp add: b)
qed

lemma note_name_split:
  assumes "note_name_to_midi name = Some v"
  shows "\<exists>nm s pc octave. name = nm @ s \<and> map_of notes_table nm = Some pc
           \<and> py_int s = Some octave \<and> v = pc + (octave + 1) * 12"
proof -
  define k :: nat where
    "k = (if length name \<ge> 3 \<and> (name ! 1 = CHR ''#'' \<or> name ! 1 = CHR ''b'') then 2 else 1)"
  from assms obtain octave pc where o: "py_int (drop k name) = Some octave"
    and m: "map_of notes_table (take k name) = Some pc"
    and v: "v = pc + (octave + 1) * 12"
    unfolding note_name_to_midi_def k_def
    by (auto simp: Let_def split: if_splits option.splits)
  have "name = take k name @ drop k name" by simp
  with o m v show ?thesis by blast
qed

text \<open>A string that \<open>int\<close> accepts is not empty and starts with neither \<open>#\<close> nor \<open>b\<close>.\<close>

lemma py_int_Nil: "py_int [] = None"
  by (simp add: py_int_def py_int_strip_def)

lemma py_int_not_accidental:
  assumes "py_int s = Some octave"
  obtains c cs where "s = c # cs" and "c \<noteq> CHR ''#''" and "c \<noteq> CHR ''b''"
proof (cases s)
  case Nil
  with assms show ?thesis by (simp add: py_int_Nil)
next
  case (Cons c cs)
  have "py_int (c # cs) = None" if "c = CHR ''#'' \<or> c = CHR ''b''"
  proof (rule py_int_junk [of c])
    show "c \<in> set (c # cs)" by simp
    show "digit_val c = None" using that by (auto simp: digit_val_def)
    show "c \<noteq> CHR ''_''" "c \<noteq> CHR ''+''" "c \<noteq> CHR ''-''" using that by auto
    show "\<not> py_int_isspace c" using that by (auto simp: py_int_isspace_def)
  qed
  with assms Cons have "c \<noteq> CHR ''#''" "c \<noteq> CHR ''b''" by auto
  with Cons that show ?thesis by blast
qed

lemma notes_table_cases:
  assumes "map_of notes_table nm = Some pc"
  shows "(\<exists>l. nm = [l] \<and> l \<noteq> CHR ''#'' \<and> l \<noteq> CHR ''b'')
             \<or> (\<exists>l a. nm = [l, a] \<and> (a = CHR ''#'' \<or> a = CHR ''b''))"
  using assms by (simp add: notes_table_def split: if_splits)

lemma note_name_formula:
  assumes m: "map_of notes_table nm = Some pc" and o: "py_int s = Some octave"
  shows "note_name_to_midi (nm @ s) = Some (pc + (octave + 1) * 12)"
proof -
  from o obtain c cs where s: "s = c # cs" and c: "c \<noteq> CHR ''#''" "c \<noteq> CHR ''b''"
    by (rule py_int_not_accidental)
  from notes_table_cases [OF m]
  have shape: "(\<exists>l. nm = [l]) \<or> (\<exists>l a. nm = [l, a] \<and> (a = CHR ''#'' \<or> a = CHR ''b''))"
    by auto
  from shape show ?thesis
  proof
    assume "\<exists>l. nm = [l]"
    then obtain l where nm: "nm = [l]" by blast
    have "note_name_to_midi (l # c # cs) = Some (pc + (octave + 1) * 12)"
      unfolding note_name_to_midi_def using m o c by (simp add: nm s)
    then show ?thesis by (simp add: nm s)
  next
    assume "\<exists>l a. nm = [l, a] \<and> (a = CHR ''#'' \<or> a = CHR ''b'')"
    then obtain l a where nm: "nm = [l, a]" and a: "a = CHR ''#'' \<or> a = CHR ''b''" by blast
    have "note_name_to_midi (l # a # c # cs) = Some (pc + (octave + 1) * 12)"
      unfolding note_name_to_midi_def using m o a by (simp add: nm s)
    then show ?thesis by (simp add: nm s)
  qed
qed

lemma note_name_to_midi_iff:
  "note_name_to_midi name = Some v \<longleftrightarrow>
     (\<exists>nm s pc octave. name = nm @ s \<and> map_of notes_table nm = Some pc
        \<and> py_int s = Some octave \<and> v = pc + (octave + 1) * 12)"
proof
  assume "note_name_to_midi name = Some v"
  then show "\<exists>nm s pc octave. name = nm @ s \<and> map_of notes_table nm = Some pc
        \<and> py_int s = Some octave \<and> v = pc + (octave + 1) * 12"
    by (rule note_name_split)
next
  assume "\<exists>nm s pc octave. name = nm @ s \<and> map_of notes_table nm = Some pc
        \<and> py_int s = Some octave \<and> v = pc + (octave + 1) * 12"
  then obtain nm s pc octave where "name = nm @ s" "map_of notes_table nm = Some pc"
    "py_int s = Some octave" "v = pc + (octave + 1) * 12" by blast
  then show "note_name_to_midi name = Some v"
    using note_name_formula [of nm pc s octave] by simp
qed

lemma load_row_short: "length row < 2 \<Longrightarrow> load_row row m = m"
  by (simp add: load_row_def)

lemmas name_eval_defs = note_name_to_midi_def py_int_def py_int_strip_def py_int_isspace_def
  digit_val_def notes_table_def max_str_digits_def

lemma note_name_examples:
  "note_name_to_midi ''C4'' = Some 60"
  "note_name_to_midi ''F#3'' = Some 54"
  "note_name_to_midi ''C10'' = Some 132"
  "note_name_to_midi ''H4'' = None"
  "note_name_to_midi ''C4x'' = None"
  "note_name_to_midi ''Cb4'' = None"
  by (simp_all add: name_eval_defs)

lemma py_int_examples:
  "py_int ''3'' = Some 3" "py_int ''10'' = Some 10" "py_int ''-10'' = Some (- 10)"
  "py_int ''4x'' = None"
  by (simp_all add: name_eval_defs)

lemma csv_rows:
  "csv_row ''C4,a'' = [''C4'', ''a'']"
  "csv_row ''F#3,z'' = [''F#3'', ''z'']"
  "csv_row ''C4'' = [''C4'']"
  "csv_row ''H4,q'' = [''H4'', ''q'']"
  "csv_row ''C4x,b'' = [''C4x'', ''b'']"
  "csv_row ''Cb4,c'' = [''Cb4'', ''c'']"
  "csv_row ''C10,k'' = [''C10'', ''k'']"
  by (simp_all add: csv_row_def)

lemma py_strip_plain:
  "py_strip ''C4'' = ''C4''" "py_strip ''F#3'' = ''F#3''" "py_strip ''C10'' = ''C10''"
  "py_strip ''H4'' = ''H4''" "py_strip ''C4x'' = ''C4x''" "py_strip ''Cb4'' = ''Cb4''"
  "py_strip ''a'' = ''a''" "py_strip ''z'' = ''z''" "py_strip ''k'' = ''k''"
  "py_strip ''q'' = ''q''" "py_strip ''b'' = ''b''" "py_strip ''c'' = ''c''"
  by (simp_all add: py_strip_def py_isspace_def)

section \<open>The claims\<close>

text \<open>
  C5. For every sequence of blocks and every block the loop processes, at most one
  event (note changed or note off) is emitted for that block, and a "note changed"
  event carries a note different from \<open>current_stable_note\<close> as it was when the block
  arrived.
\<close>

theorem at_most_one_event_per_block:
  "\<forall>(w0, acts) \<in> set (midi_trace ch blks w).
      length (events_of acts) \<le> 1
      \<and> (\<forall>n. NoteChanged n \<in> set (events_of acts)
           \<longrightarrow> current_stable_note (midi_audio_processor w0) \<noteq> Some n)"
proof (induction blks arbitrary: w)
  case Nil
  then show ?case by simp
next
  case (Cons blk blks)
  show ?case
  proof (cases "midi_running w")
    case False
    then show ?thesis by simp
  next
    case True
    have "length (events_of (fst (midi_iteration ch blk w))) \<le> 1
      \<and> (\<forall>n. NoteChanged n \<in> set (events_of (fst (midi_iteration ch blk w)))
           \<longrightarrow> current_stable_note (midi_audio_processor w) \<noteq> Some n)"
      using midi_iteration_events [of ch blk w] by auto
    with True Cons.IH [of "snd (midi_iteration ch blk w)"] show ?thesis by simp
  qed
qed

theorem at_most_one_event_per_block_witness:
  "(let w1 = update_stability 1 (midi_start_processing midi_window_init);
        acts1 = [Send (NoteOnMsg 69 64 0), StatusSignal (StatusNote 69), NoteDetectedSignal 69]
    in (w1, acts1) \<in> set (midi_trace 0 [(440, 1 / 10)] w1)
       \<and> NoteChanged 69 \<in> set (events_of acts1)
       \<and> length (events_of acts1) \<le> 1
       \<and> current_stable_note (midi_audio_processor w1) \<noteq> Some 69)"
  using at_most_one_event_per_block
    [of 0 "[(440, 1 / 10)]" "update_stability 1 (midi_start_processing midi_window_init)"]
  by (simp add: eval_defs)

text \<open>
  C3. From the reset state, with \<open>required_stability\<close> between 1 and the window
  capacity, consecutive Note(n) observations (Note(60) in particular) produce exactly
  one "note changed(n)" event, on the block where the count of \<open>n\<close> first reaches
  \<open>required_stability\<close>, and no event on any block before or after it.
\<close>

theorem stable_note_single_event:
  assumes "1 \<le> required_stability (midi_audio_processor w)"
    and "required_stability (midi_audio_processor w) \<le> int maxlen"
    and "note_history (midi_audio_processor w) = []"
    and "current_stable_note (midi_audio_processor w) = None"
    and "midi_current_note w = None"
    and "midi_running w"
    and "\<forall>b \<in> set blks. block_note b n"
  shows "map events_of (fst (midi_process_audio ch blks w))
           = map (\<lambda>i. if int i + 1 = required_stability (midi_audio_processor w)
                       then [NoteChanged n] else [])
               [0..<length blks]"
proof -
  have "after_same (required_stability (midi_audio_processor w)) n 0 w"
    using assms by (simp add: after_same_def)
  from after_same_run [OF this assms(1,2,7), of ch] show ?thesis by simp
qed

theorem stable_note_single_event_witness:
  "(let w = update_stability 3 (midi_start_processing midi_window_init);
        blks = replicate 5 (270, 1 / 10)
    in 1 \<le> required_stability (midi_audio_processor w)
       \<and> required_stability (midi_audio_processor w) \<le> int maxlen
       \<and> note_history (midi_audio_processor w) = []
       \<and> current_stable_note (midi_audio_processor w) = None
       \<and> midi_current_note w = None
       \<and> midi_running w
       \<and> block_note (270, 1 / 10) 60
       \<and> map events_of (fst (midi_process_audio 0 blks w))
           = [[], [], [NoteChanged 60], [], []])"
  using stable_note_single_event
    [of "update_stability 3 (midi_start_processing midi_window_init)"
        "replicate 5 (270, 1 / 10)" 60 0]
  by (simp add: eval_defs freq_to_midi_270 block_note_def passes_gate_def numeral_eq_Suc)

text \<open>
  C4. The claim is that in every state in which the filter declares a stable note, one
  Silence observation emits exactly one "note off" event and clears the window and the
  stable note. A Silence block does clear both in every state, but the loop sends
  "note off" only while its own \<open>current_note\<close> is set. After the eleven sounding
  blocks of \<open>drift_blocks\<close> the filter still declares the note 69, while the loop has
  turned the note off on the eleventh block; the Silence block that follows emits
  nothing.
\<close>

theorem silence_after_drift_emits_nothing:
  "list_all passes_gate drift_blocks
   \<and> \<not> passes_gate (0, 0)
   \<and> current_stable_note
        (midi_audio_processor (snd (midi_process_audio 0 drift_blocks default_session))) = Some 69
   \<and> midi_current_note (snd (midi_process_audio 0 drift_blocks default_session)) = None
   \<and> fst (midi_iteration 0 (0, 0) (snd (midi_process_audio 0 drift_blocks default_session))) = []
   \<and> note_history (midi_audio_processor (snd (midi_iteration 0 (0, 0)
        (snd (midi_process_audio 0 drift_blocks default_session))))) = []
   \<and> current_stable_note (midi_audio_processor (snd (midi_iteration 0 (0, 0)
        (snd (midi_process_audio 0 drift_blocks default_session))))) = None
   \<and> map events_of (fst (midi_process_audio 0 (drift_blocks @ [(0, 0)]) default_session))
       = [[], [], [], [], [NoteChanged 69], [], [], [], [], [], [NoteOff], []]"
  by (simp add: eval_defs default_session_def drift_blocks_def passes_gate_def numeral_eq_Suc)

text \<open>
  C6. The claim is that an alternation between two notes, neither of which reaches
  \<open>required_stability\<close> occurrences inside the window, never emits an event. With the
  note 69 on (five blocks at 440 Hz, threshold 5), six blocks alternating between
  880 Hz and 220 Hz keep the counts of 81 and of 57 below 5 in every window, and the
  sixth of them emits "note off": the window then holds 69 only four times, the
  result is not valid, and the loop turns the note off. The same six blocks at the
  start of a session emit nothing.
\<close>

theorem note_off_during_alternation:
  "midi_current_note note_on_session = Some 69
   \<and> required_stability (midi_audio_processor note_on_session) = 5
   \<and> note_history (midi_audio_processor note_on_session) = replicate 5 69
   \<and> list_all2 block_note alternating_blocks [81, 57, 81, 57, 81, 57]
   \<and> list_all (\<lambda>h. int (count_list h 81) < 5 \<and> int (count_list h 57) < 5)
        (windows (replicate 5 69) [81, 57, 81, 57, 81, 57])
   \<and> map events_of (fst (midi_process_audio 0 alternating_blocks note_on_session))
       = [[], [], [], [], [], [NoteOff]]
   \<and> last (fst (midi_process_audio 0 alternating_blocks note_on_session))
       = [Send (NoteOffMsg 69 0), NoteOffSignal]
   \<and> map events_of (fst (midi_process_audio 0 alternating_blocks default_session))
       = [[], [], [], [], [], []]"
  by (simp add: eval_defs default_session_def alternating_blocks_def note_on_session_def
      block_note_880 block_note_220 numeral_eq_Suc)

text \<open>
  C10. A block that passes the silence gate never sets \<open>current_stable_note\<close> to
  \<open>None\<close>: it leaves it unchanged or sets it to the new majority note; a block that
  does not pass the gate, and \<open>reset\<close>, set it to \<open>None\<close>. Hence, when a stable note
  \<open>n\<close> is followed by sounding blocks none of which is valid, and then by a sounding
  block whose majority note is \<open>n\<close> again, that block's result is valid with
  \<open>is_new_note = False\<close>, and the loop emits no event for it.
\<close>

theorem stable_note_kept_on_sounding_blocks:
  "(passes_gate blk \<longrightarrow>
      (\<exists>res s'. process_audio_buffer (fst blk) (snd blk) s = Inr (res, s')
         \<and> (current_stable_note s' = current_stable_note s
            \<or> (is_new_note res \<and> midi_note res \<noteq> None
                \<and> current_stable_note s' = midi_note res))))
   \<and> (\<not> passes_gate blk \<longrightarrow>
      (\<exists>res s'. process_audio_buffer (fst blk) (snd blk) s = Inr (res, s')
         \<and> current_stable_note s' = None))
   \<and> current_stable_note (reset s) = None
   \<and> (current_stable_note s = Some n
       \<and> (\<forall>b \<in> set blks. passes_gate b)
       \<and> process_blocks blks s = Inr (ress, s1)
       \<and> (\<forall>res \<in> set ress. \<not> is_valid res)
       \<and> passes_gate blk2
       \<and> process_audio_buffer (fst blk2) (snd blk2) s1 = Inr (res2, s2)
       \<and> midi_note res2 = Some n
       \<longrightarrow> is_valid res2 \<and> \<not> is_new_note res2 \<and> current_stable_note s2 = Some n
           \<and> events_of (fst (midi_iteration ch blk2 (w\<lparr>midi_audio_processor := s1\<rparr>))) = [])"
proof -
  have a: "\<exists>res s'. process_audio_buffer (fst blk) (snd blk) s = Inr (res, s')
         \<and> (current_stable_note s' = current_stable_note s
            \<or> (is_new_note res \<and> midi_note res \<noteq> None
                \<and> current_stable_note s' = midi_note res))" if "passes_gate blk"
  proof -
    from pab_gate_stable [OF that, of s] obtain res s' where
      p: "process_audio_buffer (fst blk) (snd blk) s = Inr (res, s')"
      and k: "if is_valid res
               then midi_note res \<noteq> None \<and> current_stable_note s' = midi_note res
                    \<and> (is_new_note res \<longleftrightarrow> midi_note res \<noteq> current_stable_note s)
               else \<not> is_new_note res \<and> midi_note res = None
                    \<and> current_stable_note s' = current_stable_note s"
      by blast
    have "current_stable_note s' = current_stable_note s
            \<or> (is_new_note res \<and> midi_note res \<noteq> None
                \<and> current_stable_note s' = midi_note res)"
      using k by (cases "is_valid res"; cases "is_new_note res") auto
    with p show ?thesis by blast
  qed
  have b: "\<exists>res s'. process_audio_buffer (fst blk) (snd blk) s = Inr (res, s')
         \<and> current_stable_note s' = None" if "\<not> passes_gate blk"
  proof -
    from that have "\<not> (snd blk > 0.001 \<and> fst blk > 20)" by (simp add: passes_gate_def)
    from pab_silence [OF this, of s] show ?thesis by simp
  qed
  have c: "current_stable_note (reset s) = None" by (simp add: reset_def)
  have d: "is_valid res2 \<and> \<not> is_new_note res2 \<and> current_stable_note s2 = Some n
           \<and> events_of (fst (midi_iteration ch blk2 (w\<lparr>midi_audio_processor := s1\<rparr>))) = []"
    if st: "current_stable_note s = Some n"
      and g: "\<forall>b \<in> set blks. passes_gate b"
      and run: "process_blocks blks s = Inr (ress, s1)"
      and nv: "\<forall>res \<in> set ress. \<not> is_valid res"
      and g2: "passes_gate blk2"
      and p2: "process_audio_buffer (fst blk2) (snd blk2) s1 = Inr (res2, s2)"
      and m2: "midi_note res2 = Some n"
  proof -
    have s1: "current_stable_note s1 = Some n"
      using process_blocks_keeps_stable [OF g run nv] st by simp
    from pab_gate_stable [OF g2, of s1] p2 have
      k: "if is_valid res2
               then midi_note res2 \<noteq> None \<and> current_stable_note s2 = midi_note res2
                    \<and> (is_new_note res2 \<longleftrightarrow> midi_note res2 \<noteq> current_stable_note s1)
               else \<not> is_new_note res2 \<and> midi_note res2 = None
                    \<and> current_stable_note s2 = current_stable_note s1"
      by auto
    from k m2 have v: "is_valid res2" by (auto split: if_splits)
    with k m2 s1 have nn: "\<not> is_new_note res2" and s2: "current_stable_note s2 = Some n"
      by simp_all
    have "fst (midi_iteration ch blk2 (w\<lparr>midi_audio_processor := s1\<rparr>)) = []"
      using v nn m2 by (simp add: midi_iteration_def p2)
    with v nn s2 show ?thesis by simp
  qed
  show ?thesis using a b c d by blast
qed

theorem stable_note_kept_on_sounding_blocks_witness:
  "midi_audio_processor (snd (midi_process_audio 0 drift_blocks default_session))
     = drift_processor
   \<and> current_stable_note drift_processor = Some 69
   \<and> passes_gate (440, 1 / 10)
   \<and> process_blocks (replicate 4 (440, 1 / 10)) drift_processor
       = Inr (replicate 4 \<lparr>is_valid = False, midi_note = None, is_new_note = False,
                            freq = 440, amplitude = 1 / 10\<rparr>,
              drift_processor\<lparr>note_history := [81, 81, 81, 81, 57, 57, 69, 69, 69, 69]\<rparr>)
   \<and> process_audio_buffer 440 (1 / 10)
         (drift_processor\<lparr>note_history := [81, 81, 81, 81, 57, 57, 69, 69, 69, 69]\<rparr>)
       = Inr (\<lparr>is_valid = True, midi_note = Some 69, is_new_note = False,
                freq = 440, amplitude = 1 / 10\<rparr>,
              drift_processor\<lparr>note_history := [81, 81, 81, 57, 57, 69, 69, 69, 69, 69]\<rparr>)
   \<and> events_of (fst (midi_iteration 0 (440, 1 / 10)
        (default_session\<lparr>midi_audio_processor :=
           drift_processor\<lparr>note_history := [81, 81, 81, 81, 57, 57, 69, 69, 69, 69]\<rparr>\<rparr>)))
       = []"
  using stable_note_kept_on_sounding_blocks
    [of "(440, 1 / 10)" drift_processor 69 "replicate 4 (440, 1 / 10)"
        "replicate 4 \<lparr>is_valid = False, midi_note = None, is_new_note = False,
                       freq = 440, amplitude = 1 / 10\<rparr>"
        "drift_processor\<lparr>note_history := [81, 81, 81, 81, 57, 57, 69, 69, 69, 69]\<rparr>"
        "(440, 1 / 10)"
        "\<lparr>is_valid = True, midi_note = Some 69, is_new_note = False,
          freq = 440, amplitude = 1 / 10\<rparr>"
        "drift_processor\<lparr>note_history := [81, 81, 81, 57, 57, 69, 69, 69, 69, 69]\<rparr>"
        0 default_session]
  by (simp add: eval_defs default_session_def drift_blocks_def drift_processor_def passes_gate_def numeral_eq_Suc)

text \<open>
  C1. The claim is that "note off" is emitted exactly on a Silence observation while a
  note is on, and never on a block that passes the silence gate. The loops send it
  whenever the result is not valid: in a session with the default threshold 5, all
  eleven blocks of \<open>drift_blocks\<close> pass the gate, the note 69 is declared on the fifth
  block, and the eleventh block (no count in the window reaches 5 any more) makes both
  loops turn the note off.
\<close>

theorem note_off_on_sounding_block:
  "list_all passes_gate drift_blocks
   \<and> map events_of (fst (midi_process_audio 0 drift_blocks default_session))
       = [[], [], [], [], [NoteChanged 69], [], [], [], [], [], [NoteOff]]
   \<and> last (fst (midi_process_audio 0 drift_blocks default_session))
       = [Send (NoteOffMsg 69 0), NoteOffSignal]
   \<and> map events_of (fst (kb_process_audio drift_blocks kb_default_session))
       = [[], [], [], [], [NoteChanged 69], [], [], [], [], [], [NoteOff]]
   \<and> last (fst (kb_process_audio drift_blocks kb_default_session))
       = [Keyboard (Release ''a''), NoteOffSignal]"
  by (simp add: eval_defs kb_eval_defs default_session_def drift_blocks_def
      kb_default_session_def passes_gate_def numeral_eq_Suc)

text \<open>
  C2. The claim is that the quantizer rounds \<open>69 + 12 * log2(f / 440)\<close> to the nearest
  integer. \<open>freq_to_midi\<close> truncates instead, and the \<open>int(round(note))\<close> of the
  caller is applied to the integer that results: at 430 Hz the value is about 68.6,
  nearest integer 69, and the note that enters the window is 68.
\<close>

theorem quantizer_truncates:
  "freq_to_midi 430 = Inr (Some 68)
   \<and> round (69 + 12 * log 2 (430 / 440)) = (69 :: int)
   \<and> process_audio_buffer 430 (1 / 10) (init_processor 5)
       = Inr (\<lparr>is_valid = False, midi_note = None, is_new_note = False,
                freq = 430, amplitude = 1 / 10\<rparr>,
              (init_processor 5)\<lparr>note_history := [68]\<rparr>)"
proof -
  have "process_audio_buffer 430 (1 / 10) (init_processor 5)
       = Inr (\<lparr>is_valid = False, midi_note = None, is_new_note = False,
                freq = 430, amplitude = 1 / 10\<rparr>,
              (init_processor 5)\<lparr>note_history := [68]\<rparr>)"
    unfolding process_audio_buffer_def freq_to_midi_430
    by (simp add: py_round_int_def deque_append_def maxlen_def init_processor_def Let_def)
  with freq_to_midi_430 round_430 show ?thesis by blast
qed

text \<open>
  C7, as amended. \<open>set_stability\<close> stores the value it is given, whatever it is; a
  value set through the stability slider lies between 1 and 20.
\<close>

theorem stability_range:
  "required_stability (set_stability v s) = v
   \<and> 1 \<le> slider_value v \<and> slider_value v \<le> 20
   \<and> 1 \<le> required_stability (midi_audio_processor (update_stability (slider_value v) w))
   \<and> required_stability (midi_audio_processor (update_stability (slider_value v) w)) \<le> 20"
  by (simp add: set_stability_def update_stability_def slider_value_def slider_minimum_def
      slider_maximum_def)

text \<open>
  C7 as stated fails: the slider accepts 20, which then is the threshold and exceeds
  the window capacity 10; and \<open>set_stability\<close> accepts 0.
\<close>

theorem stability_range_counterexample:
  "slider_value 20 = 20
   \<and> required_stability (midi_audio_processor (update_stability (slider_value 20) midi_window_init))
       = 20
   \<and> \<not> required_stability
          (midi_audio_processor (update_stability (slider_value 20) midi_window_init))
        \<le> int maxlen
   \<and> required_stability (set_stability 0 (init_processor 5)) = 0"
  by (simp add: set_stability_def update_stability_def slider_value_def slider_minimum_def
      slider_maximum_def maxlen_def midi_window_init_def init_processor_def)

text \<open>
  C9. Starting with no key held, at every point of every sequence of \<open>press_key\<close> and
  \<open>release_key\<close> calls the keyboard library holds at most one key; and \<open>press_key\<close>
  for a key other than the one currently held releases that one first and then
  presses the new key.
\<close>

theorem at_most_one_key_held:
  "(current_key e = None \<longrightarrow>
      at_most_one (held_after (take k (fst (kb_ops ops e))) {}))
   \<and> (available e \<and> note_to_key_map e n = Some key \<and> current_key e = Some cur \<and> cur \<noteq> key
       \<longrightarrow> press_key n e = (True, [Release cur, Press key], e\<lparr>current_key := Some key\<rparr>))"
proof -
  have "at_most_one (held_after (take k (fst (kb_ops ops e))) {})" if "current_key e = None"
    using that by (intro kb_ops_inv) (simp add: kb_inv_def)
  moreover have "press_key n e = (True, [Release cur, Press key], e\<lparr>current_key := Some key\<rparr>)"
    if "available e" "note_to_key_map e n = Some key" "current_key e = Some cur" "cur \<noteq> key"
    using that by (simp add: press_key_def)
  ultimately show ?thesis by blast
qed

theorem at_most_one_key_held_witness:
  "current_key two_key_emulator = None
   \<and> fst (kb_ops [PressKey 69, PressKey 71, ReleaseKey] two_key_emulator)
       = [Press ''a'', Release ''a'', Press ''b'', Release ''b'']
   \<and> at_most_one (held_after (take 3
        (fst (kb_ops [PressKey 69, PressKey 71, ReleaseKey] two_key_emulator))) {})
   \<and> held_after (take 3
        (fst (kb_ops [PressKey 69, PressKey 71, ReleaseKey] two_key_emulator))) {} = {''b''}
   \<and> available (two_key_emulator\<lparr>current_key := Some ''a''\<rparr>)
   \<and> note_to_key_map (two_key_emulator\<lparr>current_key := Some ''a''\<rparr>) 71 = Some ''b''
   \<and> ''a'' \<noteq> ''b''
   \<and> press_key 71 (two_key_emulator\<lparr>current_key := Some ''a''\<rparr>)
       = (True, [Release ''a'', Press ''b''], two_key_emulator\<lparr>current_key := Some ''b''\<rparr>)"
  using at_most_one_key_held [of two_key_emulator 3 "[PressKey 69, PressKey 71, ReleaseKey]"]
    at_most_one_key_held [of "two_key_emulator\<lparr>current_key := Some ''a''\<rparr>" 0 "[]" 71 "''b''" "''a''"]
  by (simp add: two_key_emulator_eq press_key_def release_key_def numeral_eq_Suc)

text \<open>
  C8. \<open>load_mapping\<close> never raises: it returns \<open>True\<close> when the file is read to its
  end and \<open>False\<close> when reading fails. \<open>note_name_to_midi\<close> gives a number exactly for
  a name of the table followed by an octave that \<open>int\<close> accepts, and the number is
  pitch class + (octave + 1) * 12; \<open>int\<close> gives a string of digits its decimal value
  and rejects a string that holds any other character than digits, underscores,
  signs and whitespace. A row with at least two columns whose name parses maps the
  number to its key; a row whose name does not parse, and a row with a single column,
  leave the mapping as it was. The rows \<open>C4,a\<close> and \<open>F#3,z\<close> map 60 to \<open>a\<close> and 54
  to \<open>z\<close>; the rows \<open>C4\<close>, \<open>H4,q\<close>, \<open>C4x,b\<close> and \<open>Cb4,c\<close> are skipped.
\<close>

theorem load_mapping_rows:
  "fst (load_mapping (ReadAll rows) e) \<and> \<not> fst (load_mapping (ReadFailed rows) e)
   \<and> (note_name_to_midi name = Some v \<longleftrightarrow>
        (\<exists>nm s pc octave. name = nm @ s \<and> map_of notes_table nm = Some pc
           \<and> py_int s = Some octave \<and> v = pc + (octave + 1) * 12))
   \<and> (ds \<noteq> [] \<and> (\<forall>c \<in> set ds. digit_val c \<noteq> None) \<and> length ds \<le> max_str_digits
        \<longrightarrow> py_int ds = Some (int (decimal_value ds))
            \<and> py_int (CHR ''-'' # ds) = Some (- int (decimal_value ds)))
   \<and> (c \<in> set str \<and> digit_val c = None \<and> c \<notin> {CHR ''_'', CHR ''+'', CHR ''-''}
        \<and> \<not> py_int_isspace c
        \<longrightarrow> py_int str = None)
   \<and> (length row \<ge> 2
        \<longrightarrow> load_row row m
            = (case note_name_to_midi (py_strip (row ! 0)) of
                 None \<Rightarrow> m
               | Some n \<Rightarrow> m(n \<mapsto> py_strip (row ! 1))))
   \<and> (length row < 2 \<longrightarrow> load_row row m = m)
   \<and> load_mapping (ReadAll (rows @ [[x]] @ rows')) e = load_mapping (ReadAll (rows @ rows')) e
   \<and> load_mapping (ReadAll (map csv_row
          [''C4,a'', ''F#3,z'', ''C4'', ''H4,q'', ''C4x,b'', ''Cb4,c'', ''C10,k''])) e
       = (True, e\<lparr>note_to_key_map := [60 \<mapsto> ''a'', 54 \<mapsto> ''z'', 132 \<mapsto> ''k'']\<rparr>)"
proof -
  have 1: "fst (load_mapping (ReadAll rows) e)" "\<not> fst (load_mapping (ReadFailed rows) e)"
    by (simp_all add: load_mapping_def)
  note 2 = note_name_to_midi_iff [of name v]
  have 3: "py_int ds = Some (int (decimal_value ds))
            \<and> py_int (CHR ''-'' # ds) = Some (- int (decimal_value ds))"
    if "ds \<noteq> []" "\<forall>c \<in> set ds. digit_val c \<noteq> None" "length ds \<le> max_str_digits"
    using py_int_digits [OF that] by simp
  have 4: "py_int str = None"
    if "c \<in> set str" "digit_val c = None" "c \<notin> {CHR ''_'', CHR ''+'', CHR ''-''}"
      "\<not> py_int_isspace c"
    using that by (intro py_int_junk [of c]) simp_all
  have 5: "load_row row m
            = (case note_name_to_midi (py_strip (row ! 0)) of
                 None \<Rightarrow> m
               | Some n \<Rightarrow> m(n \<mapsto> py_strip (row ! 1)))" if "length row \<ge> 2"
    using that by (simp add: load_row_def Let_def del: One_nat_def)
  have 6: "load_row row m = m" if "length row < 2"
    using that by (rule load_row_short)
  have 7: "load_mapping (ReadAll (rows @ [[x]] @ rows')) e
             = load_mapping (ReadAll (rows @ rows')) e"
    by (simp add: load_mapping_def load_row_short)
  have 8: "load_mapping (ReadAll (map csv_row
          [''C4,a'', ''F#3,z'', ''C4'', ''H4,q'', ''C4x,b'', ''Cb4,c'', ''C10,k''])) e
       = (True, e\<lparr>note_to_key_map := [60 \<mapsto> ''a'', 54 \<mapsto> ''z'', 132 \<mapsto> ''k'']\<rparr>)"
    by (simp add: csv_rows load_mapping_def load_row_def py_strip_plain note_name_examples)
  show ?thesis using 1 2 3 4 5 6 7 8 by blast
qed

theorem load_mapping_rows_witness:
  "note_name_to_midi ''F#3'' = Some 54 \<and> ''F#3'' = ''F#'' @ ''3''
   \<and> map_of notes_table ''F#'' = Some 6 \<and> py_int ''3'' = Some 3
   \<and> ''10'' \<noteq> [] \<and> digit_val CHR ''1'' \<noteq> None \<and> digit_val CHR ''0'' \<noteq> None
   \<and> length ''10'' \<le> max_str_digits
   \<and> decimal_value ''10'' = 10
   \<and> py_int ''10'' = Some 10 \<and> py_int ''-10'' = Some (- 10)
   \<and> CHR ''x'' \<in> set ''4x'' \<and> digit_val CHR ''x'' = None \<and> \<not> py_int_isspace CHR ''x''
   \<and> py_int ''4x'' = None
   \<and> length [''C4x'', ''b''] \<ge> 2
   \<and> note_name_to_midi (py_strip ''C4x'') = None
   \<and> load_row [''C4x'', ''b''] [60 \<mapsto> ''a''] = [60 \<mapsto> ''a'']
   \<and> load_row [''C4'', ''a''] Map.empty = [60 \<mapsto> ''a'']
   \<and> length [''C4''] < 2
   \<and> load_row [''C4''] [60 \<mapsto> ''a''] = [60 \<mapsto> ''a'']"
  using load_mapping_rows [of "[]" "init_keyboard_emulator True" "''F#3''" 54 "''10''"
      "CHR ''x''" "''4x''" "[''C4x'', ''b'']" "[60 \<mapsto> ''a'']" "''y''" "[]"]
    load_mapping_rows [of "[]" "init_keyboard_emulator True" "''F#3''" 54 "''10''"
      "CHR ''x''" "''4x''" "[''C4'']" "[60 \<mapsto> ''a'']" "''y''" "[]"]
    load_mapping_rows [of "[]" "init_keyboard_emulator True" "''F#3''" 54 "''10''"
      "CHR ''x''" "''4x''" "[''C4'', ''a'']" Map.empty "''y''" "[]"]
  by (simp add: py_int_examples note_name_examples py_strip_plain notes_table_def
      decimal_value_def digit_val_def py_int_isspace_def max_str_digits_def load_row_def)

end
